theory Spec2Isabelle
  imports Main
begin

section \<open>The stream adapter: \<open>WritableAsyncIterable\<close> and \<open>AsyncTransformStream\<close>\<close>

subsection \<open>Values, errors and promises\<close>

text \<open>
  \<open>IteratorResult<V>\<close>: \<open>{value, done: false}\<close> or \<open>{done: true}\<close>.\<close>

datatype 'v iter_result = IterValue 'v | IterDone

text \<open>
  The errors of the program: the \<open>Error('Wrote to closed writable iterable')\<close> of
  \<open>write\<close>, the \<open>TypeError\<close> of reading a property of \<open>undefined\<close>, and the errors
  of the collaborators (a stage, a stream, the configuration loader, the service worker
  generator), which are opaque and carry a tag.\<close>

datatype error = WroteToClosed | TypeError | Failure nat

text \<open>
  The promise an \<open>async\<close> method returns, as its caller sees it when the call
  returns: already resolved, already rejected, or waiting for the \<open>Deferred<void>\<close>
  with the given number to be resolved.\<close>

datatype promise = Resolved | Rejected error | WaitsOn nat

subsection \<open>\<open>WritableAsyncIterable\<close>\<close>

text \<open>
  The three fields of the class, and the \<open>Deferred\<close> objects it allocates. Every
  \<open>new Deferred()\<close> takes the next number. \<open>iterDeferreds d\<close> is the value a
  \<open>Deferred<IteratorResult<V>>\<close> was resolved with (\<open>None\<close> while it is pending),
  \<open>voidDeferreds\<close> is the set of resolved \<open>Deferred<void>\<close>.\<close>

record 'v writable_async_iterable =
  blockedOn :: "nat option"
  backlog :: "('v iter_result \<times> nat) list"
  closed :: bool
  iterDeferreds :: "nat \<Rightarrow> 'v iter_result option"
  voidDeferreds :: "nat set"
  nextDeferred :: nat

definition new_iterable :: "'v writable_async_iterable" where
  "new_iterable =
     \<lparr>blockedOn = None, backlog = [], closed = False,
      iterDeferreds = (\<lambda>_. None), voidDeferreds = {}, nextDeferred = 0\<rparr>"

text \<open>
  \<open>_write\<close> (private): hand the value to the blocked consumer, or queue it with a new
  deferred and wait for that deferred.\<close>

definition private_write ::
  "'v writable_async_iterable \<Rightarrow> 'v iter_result \<Rightarrow> 'v writable_async_iterable \<times> promise" where
  "private_write w v =
     (case blockedOn w of
        Some d \<Rightarrow> (w\<lparr>iterDeferreds := (iterDeferreds w)(d \<mapsto> v), blockedOn := None\<rparr>, Resolved)
      | None \<Rightarrow>
          (let d = nextDeferred w
           in (w\<lparr>backlog := backlog w @ [(v, d)], nextDeferred := Suc d\<rparr>, WaitsOn d)))"

text \<open>
  \<open>write\<close>: throws when closed; otherwise calls \<open>_write\<close> and returns without
  awaiting or returning the promise of \<open>_write\<close>, so its own promise is resolved when
  the call returns.\<close>

definition "write" ::
  "'v writable_async_iterable \<Rightarrow> 'v \<Rightarrow> 'v writable_async_iterable \<times> promise" where
  "write w v =
     (if closed w then (w, Rejected WroteToClosed)
      else (fst (private_write w (IterValue v)), Resolved))"

text \<open>\<open>close\<close>: sets \<open>_closed\<close> and returns the promise of \<open>_write({done: true})\<close>.\<close>

definition close :: "'v writable_async_iterable \<Rightarrow> 'v writable_async_iterable \<times> promise" where
  "close w = private_write (w\<lparr>closed := True\<rparr>) IterDone"

text \<open>
  One turn of the loop of \<open>[Symbol.asyncIterator]\<close>, up to the value it has or the
  \<open>await\<close> it suspends at: the oldest queued entry is taken and its deferred resolved,
  or a new deferred is stored in \<open>blockedOn\<close>.\<close>

datatype 'v pulled = Got "'v iter_result" | Suspended nat

definition pull :: "'v writable_async_iterable \<Rightarrow> 'v writable_async_iterable \<times> 'v pulled" where
  "pull w =
     (case backlog w of
        (v, d) # rest \<Rightarrow>
          (w\<lparr>backlog := rest, voidDeferreds := insert d (voidDeferreds w)\<rparr>, Got v)
      | [] \<Rightarrow>
          (let d = nextDeferred w
           in (w\<lparr>blockedOn := Some d, nextDeferred := Suc d\<rparr>, Suspended d)))"

text \<open>Whether a promise returned earlier is settled in the present state.\<close>

fun settled :: "'v writable_async_iterable \<Rightarrow> promise \<Rightarrow> bool" where
  "settled w Resolved = True"
| "settled w (Rejected e) = True"
| "settled w (WaitsOn d) = (d \<in> voidDeferreds w)"

subsection \<open>\<open>AsyncTransformStream\<close>\<close>

text \<open>
  \<open>_transformIter(inputs)\<close> is the abstract method a stage implements, an async
  generator over the input iterable. Between two suspension points its body is one step
  of a machine over local states: from a state it awaits the next result of the iterator
  of \<open>inputs\<close> and goes on with it, yields an output, returns, or throws. The stage
  reads \<open>inputs\<close> through one iterator.\<close>

datatype ('i, 'o, 's) action =
    Pull "'i iter_result \<Rightarrow> 's"
  | Yield 'o 's
  | Return
  | Throw error

record ('i, 'o, 's) transform_iter =
  start :: 's
  resume :: "'s \<Rightarrow> ('i, 'o, 's) action"

text \<open>
  The coroutine \<open>_initializeOnce\<close> starts: the \<open>for await\<close> loop over
  \<open>_transformIter(this._inputs)\<close> with the generator of \<open>[Symbol.asyncIterator]\<close>
  below it. \<open>Idle\<close>: not started. \<open>Ready st\<close>: the stage goes on from \<open>st\<close> at its
  next turn. \<open>Blocked d k\<close>: the stage awaits an input, the iterator awaits the deferred
  \<open>d\<close> it stored in \<open>blockedOn\<close>. \<open>Yielded out st\<close>: the stage has yielded \<open>out\<close>,
  the loop has not pushed it yet. \<open>Returned\<close>, \<open>Threw e\<close>: the stage has finished, the
  reaction on \<open>transformDonePromise\<close> has not run yet. \<open>Finished\<close>:
  \<open>_writingFinished\<close> is resolved. \<open>Errored\<close>: \<open>'error'\<close> is emitted.\<close>

datatype ('i, 'o, 's) consumer =
    Idle
  | Ready 's
  | Blocked nat "'i iter_result \<Rightarrow> 's"
  | Yielded 'o 's
  | Returned
  | Threw error
  | Finished
  | Errored

text \<open>
  One call of \<open>_flush\<close>: at \<open>await this._inputs.close()\<close> (waiting for the deferred
  of the queued done marker), at \<open>await this._writingFinished.promise\<close>, or past its
  \<open>callback\<close>, called with no argument or with the error caught.\<close>

datatype flush_call = AwaitingClose nat | AwaitingWritingFinished | Flushed "error option"

text \<open>
  The fields of the class, what it has done to its surroundings (\<open>pushed\<close>: the
  \<open>this.push\<close> calls; \<open>emitted\<close>: the \<open>'error'\<close> events; \<open>transformCalls\<close>: for
  every \<open>_transform\<close> the promise of \<open>write\<close> its callback is chained to;
  \<open>flushCalls\<close>: every \<open>_flush\<close>), and three histories kept for the statements:
  \<open>written\<close>, the items \<open>write\<close> accepted; \<open>taken\<close>, the items the iterator of the
  inputs has delivered to the stage; \<open>yielded\<close>, the outputs the stage has yielded.
  \<open>inputsDone\<close>: the iterator of the inputs has delivered the done marker and
  returned.\<close>

record ('i, 'o, 's) async_transform_stream =
  inputs :: "'i writable_async_iterable"
  initialized :: bool
  writingFinished :: bool
  consumer :: "('i, 'o, 's) consumer"
  inputsDone :: bool
  pushed :: "'o list"
  emitted :: "error list"
  transformCalls :: "promise list"
  flushCalls :: "flush_call list"
  written :: "'i list"
  taken :: "'i list"
  yielded :: "'o list"

definition new_stream :: "('i, 'o, 's) async_transform_stream" where
  "new_stream =
     \<lparr>inputs = new_iterable, initialized = False, writingFinished = False,
      consumer = Idle, inputsDone = False, pushed = [], emitted = [],
      transformCalls = [], flushCalls = [], written = [], taken = [], yielded = []\<rparr>"

text \<open>A \<open>_flush\<close> goes on as far as the promises it awaits are resolved.\<close>

fun advance :: "('i, 'o, 's) async_transform_stream \<Rightarrow> flush_call \<Rightarrow> flush_call" where
  "advance s (AwaitingClose d) =
     (if d \<in> voidDeferreds (inputs s)
      then (if writingFinished s then Flushed None else AwaitingWritingFinished)
      else AwaitingClose d)"
| "advance s AwaitingWritingFinished =
     (if writingFinished s then Flushed None else AwaitingWritingFinished)"
| "advance s (Flushed r) = Flushed r"

definition resume_flushes ::
  "('i, 'o, 's) async_transform_stream \<Rightarrow> ('i, 'o, 's) async_transform_stream" where
  "resume_flushes s = s\<lparr>flushCalls := map (advance s) (flushCalls s)\<rparr>"

text \<open>
  The iterator has a result \<open>v\<close> for the stage: \<open>if (value.done) return; else yield
  value.value\<close>.\<close>

definition deliver ::
  "('i, 'o, 's) async_transform_stream \<Rightarrow> ('i iter_result \<Rightarrow> 's) \<Rightarrow> 'i iter_result
   \<Rightarrow> ('i, 'o, 's) async_transform_stream" where
  "deliver s k v =
     (case v of
        IterValue x \<Rightarrow> s\<lparr>consumer := Ready (k v), taken := taken s @ [x]\<rparr>
      | IterDone \<Rightarrow> s\<lparr>consumer := Ready (k v), inputsDone := True\<rparr>)"

text \<open>
  One turn of the coroutine, from a suspension point to the next. An iterator that has
  returned answers every later \<open>next()\<close> with done and touches nothing.\<close>

definition tick ::
  "('i, 'o, 's) transform_iter \<Rightarrow> ('i, 'o, 's) async_transform_stream
   \<Rightarrow> ('i, 'o, 's) async_transform_stream" where
  "tick T s =
     (case consumer s of
        Idle \<Rightarrow> s
      | Ready st \<Rightarrow>
          (case resume T st of
             Pull k \<Rightarrow>
               (if inputsDone s then s\<lparr>consumer := Ready (k IterDone)\<rparr>
                else (case pull (inputs s) of
                        (w, Got v) \<Rightarrow> resume_flushes (deliver (s\<lparr>inputs := w\<rparr>) k v)
                      | (w, Suspended d) \<Rightarrow> s\<lparr>inputs := w, consumer := Blocked d k\<rparr>))
           | Yield out st' \<Rightarrow> s\<lparr>consumer := Yielded out st', yielded := yielded s @ [out]\<rparr>
           | Return \<Rightarrow> s\<lparr>consumer := Returned\<rparr>
           | Throw e \<Rightarrow> s\<lparr>consumer := Threw e\<rparr>)
      | Blocked d k \<Rightarrow>
          (case iterDeferreds (inputs s) d of
             None \<Rightarrow> s
           | Some v \<Rightarrow> deliver s k v)
      | Yielded out st \<Rightarrow> s\<lparr>pushed := pushed s @ [out], consumer := Ready st\<rparr>
      | Returned \<Rightarrow> resume_flushes (s\<lparr>writingFinished := True, consumer := Finished\<rparr>)
      | Threw e \<Rightarrow> s\<lparr>emitted := emitted s @ [e], consumer := Errored\<rparr>
      | Finished \<Rightarrow> s
      | Errored \<Rightarrow> s)"

text \<open>
  \<open>_initializeOnce\<close>: the first time, the loop is started and runs, inside the call,
  to its first suspension point.\<close>

definition initializeOnce ::
  "('i, 'o, 's) transform_iter \<Rightarrow> ('i, 'o, 's) async_transform_stream
   \<Rightarrow> ('i, 'o, 's) async_transform_stream" where
  "initializeOnce T s =
     (if initialized s then s
      else tick T (s\<lparr>initialized := True, consumer := Ready (start T)\<rparr>))"

text \<open>\<open>_transform\<close>: initialise, write the input, chain the callback to the write.\<close>

definition transform ::
  "('i, 'o, 's) transform_iter \<Rightarrow> ('i, 'o, 's) async_transform_stream \<Rightarrow> 'i
   \<Rightarrow> ('i, 'o, 's) async_transform_stream" where
  "transform T s x =
     (let s1 = initializeOnce T s;
          (w, p) = write (inputs s1) x
      in s1\<lparr>inputs := w,
            transformCalls := transformCalls s1 @ [p],
            written := written s1 @ (case p of Rejected e \<Rightarrow> [] | _ \<Rightarrow> [x])\<rparr>)"

text \<open>\<open>_flush\<close>: close the inputs, await the close, await \<open>_writingFinished\<close>.\<close>

definition flush ::
  "('i, 'o, 's) async_transform_stream \<Rightarrow> ('i, 'o, 's) async_transform_stream" where
  "flush s =
     (let (w, p) = close (inputs s);
          f = (case p of
                 Resolved \<Rightarrow> AwaitingWritingFinished
               | Rejected e \<Rightarrow> Flushed (Some e)
               | WaitsOn d \<Rightarrow> AwaitingClose d)
      in resume_flushes (s\<lparr>inputs := w, flushCalls := flushCalls s @ [f]\<rparr>))"

text \<open>
  What happens to a stream: the surrounding stream calls \<open>_transform\<close> or
  \<open>_flush\<close>, or the coroutine takes a turn. A run is any sequence of these, so a
  statement about all runs holds for every order in which the scheduler lets them
  happen.\<close>

datatype 'i event = Transform 'i | Flush | Tick

fun step ::
  "('i, 'o, 's) transform_iter \<Rightarrow> ('i, 'o, 's) async_transform_stream \<Rightarrow> 'i event
   \<Rightarrow> ('i, 'o, 's) async_transform_stream" where
  "step T s (Transform x) = transform T s x"
| "step T s Flush = flush s"
| "step T s Tick = tick T s"

definition run ::
  "('i, 'o, 's) transform_iter \<Rightarrow> ('i, 'o, 's) async_transform_stream \<Rightarrow> 'i event list
   \<Rightarrow> ('i, 'o, 's) async_transform_stream" where
  "run T s es = foldl (step T) s es"

text \<open>
  The identity stage: \<open>for await (const x of inputs) yield x\<close>. Its local states:
  at the head of the loop, holding the item it is about to yield, past the loop.\<close>

datatype 'i identity_state = AtLoop | Have 'i | AtEnd

fun identity_next :: "'i iter_result \<Rightarrow> 'i identity_state" where
  "identity_next (IterValue x) = Have x"
| "identity_next IterDone = AtEnd"

fun identity_resume :: "'i identity_state \<Rightarrow> ('i, 'i, 'i identity_state) action" where
  "identity_resume AtLoop = Pull identity_next"
| "identity_resume (Have x) = Yield x AtLoop"
| "identity_resume AtEnd = Return"

definition identityIter :: "('i, 'i, 'i identity_state) transform_iter" where
  "identityIter = \<lparr>start = AtLoop, resume = identity_resume\<rparr>"

text \<open>
  The run in which every input arrives once the coroutine has come to rest after the
  one before: each \<open>_transform\<close> is followed by the four turns that take the item,
  yield it, push it and wait for the next; \<open>_flush\<close> by the three that take the done
  marker, return and resolve \<open>_writingFinished\<close>.\<close>

definition serve :: "'i list \<Rightarrow> 'i event list" where
  "serve xs = concat (map (\<lambda>x. [Transform x, Tick, Tick, Tick, Tick]) xs) @ [Flush, Tick, Tick, Tick]"

text \<open>
  The items a sequence of events gets accepted: those of the \<open>_transform\<close> calls
  before the first \<open>_flush\<close>.\<close>

fun accepted :: "'i event list \<Rightarrow> 'i list" where
  "accepted [] = []"
| "accepted (Transform x # es) = x # accepted es"
| "accepted (Flush # es) = []"
| "accepted (Tick # es) = accepted es"

text \<open>
  A bound on the turns the coroutine of the identity stage can still take without a
  further input: three for every queued entry, and what its present place needs.\<close>

fun identity_turns :: "'i identity_state \<Rightarrow> nat" where
  "identity_turns AtLoop = 3"
| "identity_turns (Have x) = 5"
| "identity_turns AtEnd = 2"

fun consumer_turns ::
  "(nat \<Rightarrow> 'i iter_result option) \<Rightarrow> ('i, 'i, 'i identity_state) consumer \<Rightarrow> nat" where
  "consumer_turns ds Idle = 0"
| "consumer_turns ds (Ready st) = identity_turns st"
| "consumer_turns ds (Blocked d k) =
     (case ds d of None \<Rightarrow> 0 | Some v \<Rightarrow> Suc (identity_turns (k v)))"
| "consumer_turns ds (Yielded out st) = Suc (identity_turns st)"
| "consumer_turns ds Returned = 1"
| "consumer_turns ds (Threw e) = 1"
| "consumer_turns ds Finished = 0"
| "consumer_turns ds Errored = 0"

definition turns_left :: "('i, 'i, 'i identity_state) async_transform_stream \<Rightarrow> nat" where
  "turns_left s =
     3 * length (backlog (inputs s)) + consumer_turns (iterDeferreds (inputs s)) (consumer s)"

section \<open>The build: \<open>build\<close> and \<open>BuildCommand.run\<close>\<close>

subsection \<open>Options\<close>

text \<open>
  An optional property is an \<open>option\<close>: \<open>None\<close> is \<open>undefined\<close>. A condition is
  taken the way JavaScript takes it: \<open>undefined\<close> and \<open>false\<close> are falsy.\<close>

definition truthy :: "bool option \<Rightarrow> bool" where
  "truthy b \<longleftrightarrow> b = Some True"

text \<open>
  A property of an object \<open>Object.assign\<close> copies from: missing, or present with a
  value, which may be \<open>undefined\<close>. Read, both a missing property and one that is
  \<open>undefined\<close> give \<open>undefined\<close>; copied, only a present one overwrites.\<close>

datatype 'a property = Missing | Present "'a option"

fun property_value :: "'a property \<Rightarrow> 'a option" where
  "property_value Missing = None"
| "property_value (Present v) = v"

record html_options =
  collapseWhitespace :: "bool property"
  removeComments :: "bool property"

record css_options =
  stripWhitespace :: "bool property"

record js_options =
  compile :: "bool property"
  minify :: "bool property"

text \<open>
  The options object \<open>build\<close> receives. The first five properties are those of the
  interface \<open>BuildOptions\<close>; the last three are the further ones the object literal
  of \<open>BuildCommand.run\<close> carries, which \<open>build\<close> never reads.\<close>

record build_options =
  swPrecacheConfig :: "string option"
  insertDependencyLinks :: "bool option"
  html :: "html_options option"
  css :: "css_options option"
  js :: "js_options option"
  addServiceWorker :: "bool option"
  insertPrefetchLinks :: "bool option"
  bundle_flag :: "bool option"

record project_config =
  root :: string
  entrypoint :: string
  shell :: "string option"
  fragments :: "string list"
  sourceGlobs :: "string list"
  includeDependencies :: "string list"

text \<open>
  The options of the command line the command reads: \<open>options['add-service-worker']\<close>
  and so on, and whether \<open>options['env']\<close> has a \<open>build\<close> of its own.\<close>

record command_options =
  opt_add_service_worker :: "bool option"
  opt_sw_precache_config :: "string option"
  opt_insert_prefetch_links :: "bool option"
  opt_bundle :: "bool option"
  opt_html_collapseWhitespace :: "bool option"
  opt_env_build :: bool

subsection \<open>Pipelines\<close>

text \<open>
  The streams a pipeline is piped through. The first argument of \<open>gulpif\<close> is one of
  the three regular expressions \<open>/\.js$/\<close>, \<open>/\.css$/\<close>, \<open>/\.html$/\<close>, or the value of
  \<open>options.insertDependencyLinks\<close>.\<close>

datatype file_type = JsFile | CssFile | HtmlFile

datatype condition = FileMatches file_type | Flag "bool option"

datatype stage =
    SplitHtml
  | RejoinHtml
  | BabelTransform
  | JSOptimizeStream js_options
  | CSSOptimizeStream css_options
  | HTMLOptimizeStream html_options
  | Analyzer
  | PrefetchTransform
  | Bundler
  | Dest string
  | GulpIf condition stage

text \<open>
  What \<open>gulpif\<close> does with a flag: a file goes through the stage when the flag is
  truthy and past it otherwise. So a \<open>gulpif\<close> on a truthy flag is its stage, and one
  on a falsy flag is no stage; one on a regular expression stays, it depends on the
  file.\<close>

fun active :: "stage list \<Rightarrow> stage list" where
  "active [] = []"
| "active (GulpIf (Flag b) st # rest) = (if truthy b then st # active rest else active rest)"
| "active (st # rest) = st # active rest"

text \<open>
  \<open>Object.assign({removeComments: true}, options.html)\<close> and its two siblings: the
  target starts with the default, and every property the options object has is copied
  over it, also one whose value is \<open>undefined\<close>. An options object that is itself
  \<open>undefined\<close> is skipped.\<close>

definition assign_default :: "bool property \<Rightarrow> bool property" where
  "assign_default given = (case given of Missing \<Rightarrow> Present (Some True) | Present v \<Rightarrow> Present v)"

definition assign_html :: "html_options option \<Rightarrow> html_options" where
  "assign_html h =
     (case h of
        None \<Rightarrow> \<lparr>collapseWhitespace = Missing, removeComments = Present (Some True)\<rparr>
      | Some given \<Rightarrow> given\<lparr>removeComments := assign_default (removeComments given)\<rparr>)"

definition assign_css :: "css_options option \<Rightarrow> css_options" where
  "assign_css c =
     (case c of
        None \<Rightarrow> \<lparr>stripWhitespace = Present (Some True)\<rparr>
      | Some given \<Rightarrow> given\<lparr>stripWhitespace := assign_default (stripWhitespace given)\<rparr>)"

definition assign_js :: "js_options \<Rightarrow> js_options" where
  "assign_js given = given\<lparr>minify := assign_default (minify given)\<rparr>"

text \<open>
  The stages \<open>sourcesStream\<close> and \<open>depsStream\<close> are piped through, after
  \<open>polymerProject.sources()\<close> and \<open>polymerProject.dependencies()\<close>: the same for
  both, with the Babel stage when \<open>options.js.compile\<close> is truthy.\<close>

definition optimize_stages :: "build_options \<Rightarrow> js_options \<Rightarrow> stage list" where
  "optimize_stages options j =
     [SplitHtml]
     @ (if truthy (property_value (compile j)) then [GulpIf (FileMatches JsFile) BabelTransform] else [])
     @ [GulpIf (FileMatches JsFile) (JSOptimizeStream (assign_js j)),
        GulpIf (FileMatches CssFile) (CSSOptimizeStream (assign_css (css options))),
        GulpIf (FileMatches HtmlFile) (HTMLOptimizeStream (assign_html (html options))),
        RejoinHtml]"

subsection \<open>Promises\<close>

text \<open>
  The values promises are fulfilled with here: \<open>undefined\<close> (the \<open>'end'\<close> of a
  stream, the end of \<open>addServiceWorker\<close>, a missing configuration file) or a service
  worker configuration, which is opaque.\<close>

datatype val = Undefined | Config nat

datatype 'a settle = Pending | Fulfilled 'a | RejectedWith error

fun failed :: "'a settle \<Rightarrow> bool" where
  "failed (RejectedWith e) = True"
| "failed p = False"

fun succeeded :: "'a settle \<Rightarrow> bool" where
  "succeeded (Fulfilled v) = True"
| "succeeded p = False"

fun rejections :: "'a settle list \<Rightarrow> error list" where
  "rejections [] = []"
| "rejections (RejectedWith e # ps) = e # rejections ps"
| "rejections (p # ps) = rejections ps"

fun fulfilments :: "'a settle list \<Rightarrow> 'a list" where
  "fulfilments [] = []"
| "fulfilments (Fulfilled v # ps) = v # fulfilments ps"
| "fulfilments (p # ps) = fulfilments ps"

text \<open>
  \<open>Promise.all\<close>, as the language defines it, at the settlement of one of its inputs:
  given the inputs as they are now and what the promise was, it stays as it was when
  already settled; it is rejected with the reason of the input that has rejected; it is
  fulfilled with all the values once every input is fulfilled. It is brought up to date
  after every settlement, so it is rejected at the first rejection.\<close>

definition promise_all :: "'a settle list \<Rightarrow> 'a list settle \<Rightarrow> 'a list settle" where
  "promise_all ps cur =
     (case cur of
        Pending \<Rightarrow>
          (case rejections ps of
             e # es \<Rightarrow> RejectedWith e
           | [] \<Rightarrow> if list_all succeeded ps then Fulfilled (fulfilments ps) else Pending)
      | Fulfilled vs \<Rightarrow> cur
      | RejectedWith e \<Rightarrow> cur)"

text \<open>
  \<open>p.then(f)\<close> where \<open>f\<close> returns a promise: rejected as \<open>p\<close> is, and once \<open>p\<close> is
  fulfilled, whatever the promise \<open>f\<close> has returned is.\<close>

definition then_promise :: "'a settle \<Rightarrow> 'b settle option \<Rightarrow> 'b settle" where
  "then_promise p returned =
     (case p of
        Pending \<Rightarrow> Pending
      | RejectedWith e \<Rightarrow> RejectedWith e
      | Fulfilled v \<Rightarrow> (case returned of None \<Rightarrow> Pending | Some q \<Rightarrow> q))"

subsection \<open>The state of a build\<close>

datatype branch = Unbundled | Bundled

text \<open>
  One branch: \<open>waitFor(phase)\<close>; \<open>Promise.all([loadSWConfig, waitFor(phase)])\<close>; and
  the promise of \<open>addServiceWorker\<close>, once it has been called.\<close>

record branch_state =
  stream :: "val settle"
  configAndStream :: "val list settle"
  worker :: "val settle option"

text \<open>The argument of a call of \<open>addServiceWorker\<close> (the project is the same in all).\<close>

record worker_call =
  buildRoot :: string
  swConfig :: val
  bundled_arg :: "bool option"

text \<open>
  The pipelines \<open>build\<close> has set up, the calls of \<open>parsePreCacheConfig\<close> (with the
  project root and the file to resolve against it) and of \<open>addServiceWorker\<close> it has
  made, and its promises.\<close>

record build_state =
  sourcesStream :: "stage list"
  depsStream :: "stage list"
  buildStream :: "stage list"
  unbundledPhase :: "stage list"
  bundledPhase :: "stage list"
  configLoads :: "(string \<times> string) list"
  loadSWConfig :: "val settle"
  unbundled :: branch_state
  bundled :: branch_state
  completion :: "val list settle"
  workerCalls :: "worker_call list"

text \<open>
  \<open>unbundledPostProcessing\<close> and \<open>bundledPostProcessing\<close>; and the promise \<open>build\<close>
  returns, which follows the \<open>await\<close> of the \<open>Promise.all\<close> of the two.\<close>

definition postProcessing :: "branch_state \<Rightarrow> val settle" where
  "postProcessing b = then_promise (configAndStream b) (worker b)"

definition result :: "build_state \<Rightarrow> val settle" where
  "result s =
     (case completion s of
        Pending \<Rightarrow> Pending
      | Fulfilled vs \<Rightarrow> Fulfilled Undefined
      | RejectedWith e \<Rightarrow> RejectedWith e)"

subsection \<open>\<open>build\<close>\<close>

text \<open>
  \<open>build\<close>, up to its \<open>await\<close>. Reading \<open>options.js.compile\<close> when \<open>options.js\<close>
  is \<open>undefined\<close> throws a \<open>TypeError\<close>, first of all. Otherwise the pipelines are set
  up, the configuration is requested once, and every promise is pending.\<close>

definition build :: "build_options \<Rightarrow> project_config \<Rightarrow> error + build_state" where
  "build options config =
     (case js options of
        None \<Rightarrow> Inl TypeError
      | Some j \<Rightarrow>
          Inr \<lparr>sourcesStream = optimize_stages options j,
               depsStream = optimize_stages options j,
               buildStream = [Analyzer],
               unbundledPhase =
                 [GulpIf (Flag (insertDependencyLinks options)) PrefetchTransform,
                  Dest ''build/unbundled''],
               bundledPhase = [Bundler, Dest ''build/bundled''],
               configLoads =
                 [(root config,
                   (case swPrecacheConfig options of
                      None \<Rightarrow> ''sw-precache-config.js''
                    | Some p \<Rightarrow> if p = [] then ''sw-precache-config.js'' else p))],
               loadSWConfig = Pending,
               unbundled = \<lparr>stream = Pending, configAndStream = Pending, worker = None\<rparr>,
               bundled = \<lparr>stream = Pending, configAndStream = Pending, worker = None\<rparr>,
               completion = Pending,
               workerCalls = []\<rparr>)"

subsection \<open>What happens to a build\<close>

text \<open>
  What happens to a build: \<open>parsePreCacheConfig\<close> settles; the last stream of a
  phase, the one \<open>waitFor\<close> is given, emits \<open>'end'\<close> or \<open>'error'\<close>; a call of
  \<open>addServiceWorker\<close> settles; or a stream of a phase before its last one (the fork,
  the prefetch stage, the bundler) emits \<open>'error'\<close>.\<close>

datatype build_event =
    ConfigLoaded val
  | ConfigFailed error
  | StreamEnd branch
  | StreamError branch error
  | WorkerDone branch
  | WorkerFailed branch error
  | UpstreamError branch error

text \<open>A promise is settled once: a settlement of a settled promise changes nothing.\<close>

definition settle_with :: "'a settle \<Rightarrow> 'a settle \<Rightarrow> 'a settle" where
  "settle_with p outcome = (case p of Pending \<Rightarrow> outcome | _ \<Rightarrow> p)"

fun buildRoot_of :: "branch \<Rightarrow> string" where
  "buildRoot_of Unbundled = ''build/unbundled''"
| "buildRoot_of Bundled = ''build/bundled''"

fun bundled_of :: "branch \<Rightarrow> bool option" where
  "bundled_of Unbundled = None"
| "bundled_of Bundled = Some True"

definition call_for :: "branch \<Rightarrow> val \<Rightarrow> worker_call" where
  "call_for name c = \<lparr>buildRoot = buildRoot_of name, swConfig = c, bundled_arg = bundled_of name\<rparr>"

text \<open>
  The reactions of one branch to a settlement: its \<open>Promise.all\<close> is brought up to
  date, and when it is fulfilled and \<open>addServiceWorker\<close> has not been called, it is
  called with \<open>results[0]\<close>.\<close>

definition react_branch ::
  "val settle \<Rightarrow> branch \<Rightarrow> branch_state \<Rightarrow> branch_state \<times> worker_call list" where
  "react_branch cfg name b =
     (let both = promise_all [cfg, stream b] (configAndStream b)
      in case (both, worker b) of
           (Fulfilled results, None) \<Rightarrow>
             (b\<lparr>configAndStream := both, worker := Some Pending\<rparr>,
              [call_for name (hd results)])
         | _ \<Rightarrow> (b\<lparr>configAndStream := both\<rparr>, []))"

text \<open>
  The reactions of the build to a settlement: first those of the unbundled branch, then
  those of the bundled one, then the \<open>Promise.all\<close> of the two post-processing
  promises.\<close>

definition react :: "build_state \<Rightarrow> build_state" where
  "react s =
     (let (u, ucalls) = react_branch (loadSWConfig s) Unbundled (unbundled s);
          (b, bcalls) = react_branch (loadSWConfig s) Bundled (bundled s)
      in s\<lparr>unbundled := u, bundled := b,
            workerCalls := workerCalls s @ ucalls @ bcalls,
            completion := promise_all [postProcessing u, postProcessing b] (completion s)\<rparr>)"

fun settle_stream :: "branch \<Rightarrow> val settle \<Rightarrow> build_state \<Rightarrow> build_state" where
  "settle_stream Unbundled outcome s =
     s\<lparr>unbundled := (unbundled s)\<lparr>stream := settle_with (stream (unbundled s)) outcome\<rparr>\<rparr>"
| "settle_stream Bundled outcome s =
     s\<lparr>bundled := (bundled s)\<lparr>stream := settle_with (stream (bundled s)) outcome\<rparr>\<rparr>"

definition settle_worker :: "val settle \<Rightarrow> branch_state \<Rightarrow> branch_state" where
  "settle_worker outcome b =
     (case worker b of
        None \<Rightarrow> b
      | Some p \<Rightarrow> b\<lparr>worker := Some (settle_with p outcome)\<rparr>)"

fun settle_worker_of :: "branch \<Rightarrow> val settle \<Rightarrow> build_state \<Rightarrow> build_state" where
  "settle_worker_of Unbundled outcome s = s\<lparr>unbundled := settle_worker outcome (unbundled s)\<rparr>"
| "settle_worker_of Bundled outcome s = s\<lparr>bundled := settle_worker outcome (bundled s)\<rparr>"

text \<open>
  A settlement is followed by its reactions. \<open>pipe\<close> forwards no \<open>'error'\<close> and
  \<open>build\<close> listens, through \<open>waitFor\<close>, to the last stream of a phase only: to an
  \<open>'error'\<close> further up no promise of the build reacts.\<close>

fun build_step :: "build_state \<Rightarrow> build_event \<Rightarrow> build_state" where
  "build_step s (ConfigLoaded c) =
     react (s\<lparr>loadSWConfig := settle_with (loadSWConfig s) (Fulfilled c)\<rparr>)"
| "build_step s (ConfigFailed e) =
     react (s\<lparr>loadSWConfig := settle_with (loadSWConfig s) (RejectedWith e)\<rparr>)"
| "build_step s (StreamEnd name) = react (settle_stream name (Fulfilled Undefined) s)"
| "build_step s (StreamError name e) = react (settle_stream name (RejectedWith e) s)"
| "build_step s (WorkerDone name) = react (settle_worker_of name (Fulfilled Undefined) s)"
| "build_step s (WorkerFailed name e) = react (settle_worker_of name (RejectedWith e) s)"
| "build_step s (UpstreamError name e) = s"

definition build_run :: "build_state \<Rightarrow> build_event list \<Rightarrow> build_state" where
  "build_run s es = foldl build_step s es"

text \<open>
  What a sequence of events says about \<open>parsePreCacheConfig\<close> and about the last
  stream of a phase, read off the events alone: the first settlement counts, and without
  one the promise is pending.\<close>

fun config_of :: "build_event list \<Rightarrow> val settle" where
  "config_of [] = Pending"
| "config_of (ConfigLoaded c # es) = Fulfilled c"
| "config_of (ConfigFailed e # es) = RejectedWith e"
| "config_of (ev # es) = config_of es"

fun stream_of :: "branch \<Rightarrow> build_event list \<Rightarrow> val settle" where
  "stream_of name [] = Pending"
| "stream_of name (StreamEnd n # es) =
     (if n = name then Fulfilled Undefined else stream_of name es)"
| "stream_of name (StreamError n e # es) =
     (if n = name then RejectedWith e else stream_of name es)"
| "stream_of name (ev # es) = stream_of name es"

subsection \<open>\<open>BuildCommand.run\<close>\<close>

text \<open>
  The options object of \<open>run\<close>: the flags under the names \<open>run\<close> gives them, empty
  \<open>html\<close>, \<open>css\<close> and \<open>js\<close>, and \<open>html.collapseWhitespace\<close> set when its flag is
  truthy. No property \<open>insertDependencyLinks\<close> is set.\<close>

definition buildOptions :: "command_options \<Rightarrow> build_options" where
  "buildOptions options =
     \<lparr>swPrecacheConfig = opt_sw_precache_config options,
      insertDependencyLinks = None,
      html = Some \<lparr>collapseWhitespace =
                     (if truthy (opt_html_collapseWhitespace options)
                      then Present (Some True) else Missing),
                   removeComments = Missing\<rparr>,
      css = Some \<lparr>stripWhitespace = Missing\<rparr>,
      js = Some \<lparr>compile = Missing, minify = Missing\<rparr>,
      addServiceWorker = opt_add_service_worker options,
      insertPrefetchLinks = opt_insert_prefetch_links options,
      bundle_flag = opt_bundle options\<rparr>"

text \<open>
  \<open>run\<close>: the build of the environment when there is one, the standard \<open>build\<close>
  otherwise, with the same options object.\<close>

datatype run_result = ViaEnv build_options | ViaBuild "error + build_state"

definition command_run :: "command_options \<Rightarrow> project_config \<Rightarrow> run_result" where
  "command_run options config =
     (if opt_env_build options then ViaEnv (buildOptions options)
      else ViaBuild (build (buildOptions options) config))"

text \<open>Whether \<open>addServiceWorker\<close> has been called and its promise is as \<open>P\<close> says.\<close>

fun called_and :: "('a settle \<Rightarrow> bool) \<Rightarrow> 'a settle option \<Rightarrow> bool" where
  "called_and P None = False"
| "called_and P (Some p) = P p"

subsection \<open>A command line and a project\<close>

text \<open>
  \<open>polymer build --insert-prefetch-links\<close> in a project at \<open>/app\<close>, for the
  examples.\<close>

definition demo_command :: command_options where
  "demo_command =
     \<lparr>opt_add_service_worker = None,
      opt_sw_precache_config = Some ''sw-precache-config.js'',
      opt_insert_prefetch_links = Some True,
      opt_bundle = Some False,
      opt_html_collapseWhitespace = None,
      opt_env_build = False\<rparr>"

definition demo_config :: project_config where
  "demo_config =
     \<lparr>root = ''/app'', entrypoint = ''index.html'', shell = None, fragments = [],
      sourceGlobs = [''src/**/*''], includeDependencies = []\<rparr>"

text \<open>The build \<open>run\<close> starts for them, all its promises pending.\<close>

definition demo_build :: build_state where
  "demo_build = projr (build (buildOptions demo_command) demo_config)"

section \<open>Predicates on the states of a stream\<close>

text \<open>
  The result the stage is about to receive: the value its deferred was resolved with,
  while the coroutine has not taken its turn.\<close>

definition inflight :: "('i, 'o, 's) async_transform_stream \<Rightarrow> 'i iter_result list" where
  "inflight s =
     (case consumer s of
        Blocked d k \<Rightarrow> (case iterDeferreds (inputs s) d of Some v \<Rightarrow> [v] | None \<Rightarrow> [])
      | _ \<Rightarrow> [])"

text \<open>The output the stage has yielded and the loop has not pushed yet.\<close>

definition unpushed :: "('i, 'o, 's) async_transform_stream \<Rightarrow> 'o list" where
  "unpushed s = (case consumer s of Yielded out st \<Rightarrow> [out] | _ \<Rightarrow> [])"

text \<open>
  The deferreds are numbered as they are made: the numbers in use are below the next one,
  a queued entry's deferred is unresolved and its own, and the iterator waits in
  \<open>blockedOn\<close> only on an unresolved deferred and an empty backlog.\<close>

definition ids_ok :: "'v writable_async_iterable \<Rightarrow> bool" where
  "ids_ok w \<longleftrightarrow>
     (\<forall>d. nextDeferred w \<le> d \<longrightarrow> iterDeferreds w d = None)
     \<and> (\<forall>d \<in> snd ` set (backlog w). d < nextDeferred w \<and> d \<notin> voidDeferreds w)
     \<and> distinct (map snd (backlog w))
     \<and> (\<forall>d \<in> voidDeferreds w. d < nextDeferred w)
     \<and> (\<forall>d. blockedOn w = Some d \<longrightarrow>
           d < nextDeferred w \<and> iterDeferreds w d = None \<and> backlog w = [])"

text \<open>
  \<open>blockedOn\<close> holds a deferred exactly while the coroutine waits on it, and the
  coroutine is not started before \<open>_initializeOnce\<close>.\<close>

definition linked :: "('i, 'o, 's) async_transform_stream \<Rightarrow> bool" where
  "linked s \<longleftrightarrow>
     (\<forall>d. blockedOn (inputs s) = Some d \<longrightarrow> (\<exists>k. consumer s = Blocked d k))
     \<and> (\<forall>d k. consumer s = Blocked d k \<longrightarrow>
           d < nextDeferred (inputs s) \<and> \<not> inputsDone s
           \<and> (iterDeferreds (inputs s) d = None \<longrightarrow> blockedOn (inputs s) = Some d))
     \<and> (\<not> initialized s \<longrightarrow> consumer s = Idle)"

text \<open>Where a call of \<open>_flush\<close> can be, given the rest of the state.\<close>

fun flush_ok :: "('i, 'o, 's) async_transform_stream \<Rightarrow> flush_call \<Rightarrow> bool" where
  "flush_ok s (AwaitingClose d) = ((IterDone, d) \<in> set (backlog (inputs s)))"
| "flush_ok s AwaitingWritingFinished = (inputsDone s \<or> inflight s = [IterDone])"
| "flush_ok s (Flushed None) = (inputsDone s \<and> writingFinished s)"
| "flush_ok s (Flushed (Some e)) = False"

text \<open>The same before the calls of \<open>_flush\<close> have gone on after a turn.\<close>

fun flush_pre :: "('i, 'o, 's) async_transform_stream \<Rightarrow> flush_call \<Rightarrow> bool" where
  "flush_pre s (AwaitingClose d) =
     ((IterDone, d) \<in> set (backlog (inputs s)) \<or> d \<in> voidDeferreds (inputs s) \<and> inputsDone s)"
| "flush_pre s AwaitingWritingFinished = (inputsDone s \<or> inflight s = [IterDone])"
| "flush_pre s (Flushed None) = (inputsDone s \<and> writingFinished s)"
| "flush_pre s (Flushed (Some e)) = False"

definition flushes_ok :: "('i, 'o, 's) async_transform_stream \<Rightarrow> bool" where
  "flushes_ok s \<longleftrightarrow>
     (\<forall>f \<in> set (flushCalls s). flush_ok s f)
     \<and> (closed (inputs s) \<longleftrightarrow> flushCalls s \<noteq> [])
     \<and> (writingFinished s \<longleftrightarrow> consumer s = Finished)
     \<and> yielded s = pushed s @ unpushed s"

text \<open>
  Nothing is lost or reordered on the way in: what was written, then the done markers
  of the closes, is what the stage has taken, then what is on its way, then the
  backlog.\<close>

definition conserved :: "('i, 'o, 's) async_transform_stream \<Rightarrow> bool" where
  "conserved s \<longleftrightarrow>
     map IterValue (written s) @ replicate (length (flushCalls s)) IterDone =
       map IterValue (taken s) @ (if inputsDone s then [IterDone] else [])
         @ inflight s @ map fst (backlog (inputs s))"

definition invariant :: "('i, 'o, 's) async_transform_stream \<Rightarrow> bool" where
  "invariant s \<longleftrightarrow> ids_ok (inputs s) \<and> linked s \<and> flushes_ok s \<and> conserved s"

text \<open>
  The identity stage: where the coroutine is, whether the done marker has been
  delivered, and what has been taken and not pushed yet.\<close>

fun identity_ok ::
  "('i, 'i, 'i identity_state) consumer \<Rightarrow> bool \<Rightarrow> 'i list \<Rightarrow> 'i list \<Rightarrow> bool" where
  "identity_ok Idle fin tk ps = (tk = ps \<and> \<not> fin)"
| "identity_ok (Ready AtLoop) fin tk ps = (tk = ps \<and> \<not> fin)"
| "identity_ok (Ready (Have x)) fin tk ps = (tk = ps @ [x] \<and> \<not> fin)"
| "identity_ok (Ready AtEnd) fin tk ps = (tk = ps \<and> fin)"
| "identity_ok (Blocked d k) fin tk ps = (tk = ps \<and> \<not> fin \<and> k = identity_next)"
| "identity_ok (Yielded x st) fin tk ps = (tk = ps @ [x] \<and> \<not> fin \<and> st = AtLoop)"
| "identity_ok Returned fin tk ps = (tk = ps \<and> fin)"
| "identity_ok Finished fin tk ps = (tk = ps \<and> fin)"
| "identity_ok (Threw e) fin tk ps = False"
| "identity_ok Errored fin tk ps = False"

definition identity_inv :: "('i, 'i, 'i identity_state) async_transform_stream \<Rightarrow> bool" where
  "identity_inv s \<longleftrightarrow> identity_ok (consumer s) (inputsDone s) (taken s) (pushed s)"

text \<open>
  The identity stream at rest between two inputs: started, open, the coroutine waiting
  in \<open>blockedOn\<close>, everything written so far pushed.\<close>

definition waiting :: "('i, 'i, 'i identity_state) async_transform_stream \<Rightarrow> 'i list \<Rightarrow> bool" where
  "waiting s xs \<longleftrightarrow>
     invariant s \<and> initialized s \<and> \<not> closed (inputs s)
     \<and> (\<exists>d. blockedOn (inputs s) = Some d \<and> consumer s = Blocked d identity_next)
     \<and> pushed s = xs \<and> written s = xs \<and> taken s = xs"

text \<open>
  The coroutine is at rest: a turn changes nothing until an input arrives.\<close>

definition resting :: "('i, 'o, 's) async_transform_stream \<Rightarrow> bool" where
  "resting s \<longleftrightarrow>
     consumer s = Idle \<or> consumer s = Finished \<or> consumer s = Errored
     \<or> (\<exists>d k. consumer s = Blocked d k \<and> iterDeferreds (inputs s) d = None)"

text \<open>The coroutine is started exactly when \<open>_initialized\<close> is set.\<close>

definition started_ok :: "('i, 'o, 's) async_transform_stream \<Rightarrow> bool" where
  "started_ok s \<longleftrightarrow> (initialized s \<longleftrightarrow> consumer s \<noteq> Idle)"

section \<open>Predicates on the states of a build\<close>

text \<open>A promise has gone on from \<open>p\<close> to \<open>p'\<close>: it was pending, or it is as it was.\<close>

definition more :: "'a settle \<Rightarrow> 'a settle \<Rightarrow> bool" where
  "more p p' \<longleftrightarrow> p = Pending \<or> p' = p"

text \<open>
  A \<open>Promise.all\<close> is up to date with its inputs: pending while none has rejected and
  not all are fulfilled, fulfilled with their values, or rejected with the reason of one
  that has rejected. Before it is brought up to date it may still be pending.\<close>

definition all_ok :: "'a settle list \<Rightarrow> 'a list settle \<Rightarrow> bool" where
  "all_ok ps cur \<longleftrightarrow>
     (case cur of
        Pending \<Rightarrow> rejections ps = [] \<and> \<not> list_all succeeded ps
      | Fulfilled vs \<Rightarrow> list_all succeeded ps \<and> vs = fulfilments ps
      | RejectedWith e \<Rightarrow> e \<in> set (rejections ps))"

definition all_pre :: "'a settle list \<Rightarrow> 'a list settle \<Rightarrow> bool" where
  "all_pre ps cur \<longleftrightarrow>
     (case cur of
        Pending \<Rightarrow> True
      | Fulfilled vs \<Rightarrow> list_all succeeded ps \<and> vs = fulfilments ps
      | RejectedWith e \<Rightarrow> e \<in> set (rejections ps))"

text \<open>
  A branch is up to date: so is its \<open>Promise.all\<close>, and \<open>addServiceWorker\<close> has been
  called exactly when that is fulfilled.\<close>

definition branch_ok :: "val settle \<Rightarrow> branch_state \<Rightarrow> bool" where
  "branch_ok cfg b \<longleftrightarrow>
     all_ok [cfg, stream b] (configAndStream b)
     \<and> (worker b = None \<longleftrightarrow> \<not> succeeded (configAndStream b))"

text \<open>A branch after a settlement, before its reactions.\<close>

definition branch_advanced :: "branch_state \<Rightarrow> branch_state \<Rightarrow> bool" where
  "branch_advanced b b' \<longleftrightarrow>
     more (stream b) (stream b') \<and> configAndStream b' = configAndStream b
     \<and> (case worker b of
           None \<Rightarrow> worker b' = None
         | Some p \<Rightarrow> (\<exists>p'. worker b' = Some p' \<and> more p p'))"

text \<open>The call of \<open>addServiceWorker\<close> a branch has made, if it has.\<close>

definition calls_due :: "val settle \<Rightarrow> branch \<Rightarrow> branch_state \<Rightarrow> worker_call set" where
  "calls_due cfg name b =
     (case (cfg, worker b) of
        (Fulfilled c, Some p) \<Rightarrow> {call_for name c}
      | _ \<Rightarrow> {})"

definition build_ok :: "build_state \<Rightarrow> bool" where
  "build_ok s \<longleftrightarrow>
     branch_ok (loadSWConfig s) (unbundled s)
     \<and> branch_ok (loadSWConfig s) (bundled s)
     \<and> all_ok [postProcessing (unbundled s), postProcessing (bundled s)] (completion s)
     \<and> list_all (\<lambda>c. loadSWConfig s = Fulfilled (swConfig c)) (workerCalls s)
     \<and> set (workerCalls s) = calls_due (loadSWConfig s) Unbundled (unbundled s)
                                \<union> calls_due (loadSWConfig s) Bundled (bundled s)
     \<and> length (workerCalls s) =
         (if worker (unbundled s) = None then 0 else 1) + (if worker (bundled s) = None then 0 else 1)"

definition advanced :: "build_state \<Rightarrow> build_state \<Rightarrow> bool" where
  "advanced s s' \<longleftrightarrow>
     more (loadSWConfig s) (loadSWConfig s')
     \<and> branch_advanced (unbundled s) (unbundled s')
     \<and> branch_advanced (bundled s) (bundled s')
     \<and> completion s' = completion s
     \<and> workerCalls s' = workerCalls s
     \<and> configLoads s' = configLoads s"

text \<open>
  A stream no input has reached: the coroutine is not started, nobody waits in
  \<open>blockedOn\<close>, and the \<open>n\<close> calls of \<open>_flush\<close> so far have each queued a done
  marker and wait for its deferred.\<close>

definition unstarted :: "('i, 'o, 's) async_transform_stream \<Rightarrow> nat \<Rightarrow> bool" where
  "unstarted s n \<longleftrightarrow>
     consumer s = Idle \<and> \<not> initialized s \<and> \<not> writingFinished s
     \<and> blockedOn (inputs s) = None \<and> voidDeferreds (inputs s) = {}
     \<and> nextDeferred (inputs s) = n
     \<and> backlog (inputs s) = map (\<lambda>d. (IterDone, d)) [0..<n]
     \<and> flushCalls s = map AwaitingClose [0..<n]
     \<and> pushed s = []"

section \<open>Properties of the stream adapter\<close>

subsection \<open>Runs and invariants\<close>

lemma run_Nil: "run T s [] = s"
  by (simp add: run_def)

lemma run_snoc: "run T s (es @ [e]) = step T (run T s es) e"
  by (simp add: run_def)

lemma invariant_new: "invariant new_stream"
  by (simp add: invariant_def ids_ok_def linked_def flushes_ok_def conserved_def
      new_stream_def new_iterable_def inflight_def unpushed_def)

lemma resume_flushes_fields [simp]:
  "inputs (resume_flushes s) = inputs s"
  "consumer (resume_flushes s) = consumer s"
  "inputsDone (resume_flushes s) = inputsDone s"
  "writingFinished (resume_flushes s) = writingFinished s"
  "pushed (resume_flushes s) = pushed s"
  "yielded (resume_flushes s) = yielded s"
  "written (resume_flushes s) = written s"
  "taken (resume_flushes s) = taken s"
  "initialized (resume_flushes s) = initialized s"
  "flushCalls (resume_flushes s) = map (advance s) (flushCalls s)"
  by (simp_all add: resume_flushes_def)

lemma inflight_resume_flushes [simp]: "inflight (resume_flushes s) = inflight s"
  by (simp add: inflight_def split: consumer.splits)

lemma unpushed_resume_flushes [simp]: "unpushed (resume_flushes s) = unpushed s"
  by (simp add: unpushed_def split: consumer.splits)

subsection \<open>The numbering of the deferreds\<close>

lemma ids_ok_private_write: "ids_ok w \<Longrightarrow> ids_ok (fst (private_write w v))"
  unfolding ids_ok_def private_write_def
  by (cases "blockedOn w") (auto simp: Let_def less_Suc_eq)

lemma ids_ok_closed: "ids_ok w \<Longrightarrow> ids_ok (w\<lparr>closed := c\<rparr>)"
  by (simp add: ids_ok_def)

lemma ids_ok_close: "ids_ok w \<Longrightarrow> ids_ok (fst (close w))"
  by (simp add: close_def ids_ok_private_write ids_ok_closed)

lemma ids_ok_pull: "ids_ok w \<Longrightarrow> ids_ok (fst (pull w))"
  unfolding ids_ok_def pull_def
  by (cases "backlog w") (force simp: Let_def less_Suc_eq image_iff)+

subsection \<open>The turns of the coroutine, case by case\<close>

lemma pull_empty:
  "backlog w = [] \<Longrightarrow>
   pull w = (w\<lparr>blockedOn := Some (nextDeferred w), nextDeferred := Suc (nextDeferred w)\<rparr>,
             Suspended (nextDeferred w))"
  by (simp add: pull_def Let_def)

lemma pull_entry:
  "backlog w = (v, d) # rest \<Longrightarrow>
   pull w = (w\<lparr>backlog := rest, voidDeferreds := insert d (voidDeferreds w)\<rparr>, Got v)"
  by (simp add: pull_def)

lemma tick_stays:
  "consumer s = Idle \<or> consumer s = Finished \<or> consumer s = Errored
   \<or> (\<exists>d k. consumer s = Blocked d k \<and> iterDeferreds (inputs s) d = None) \<Longrightarrow> tick T s = s"
  by (auto simp: tick_def)

lemma tick_resumed:
  "consumer s = Blocked d k \<Longrightarrow> iterDeferreds (inputs s) d = Some v \<Longrightarrow>
   tick T s = deliver s k v"
  by (simp add: tick_def)

lemma tick_pull_after_done:
  "consumer s = Ready st \<Longrightarrow> resume T st = Pull k \<Longrightarrow> inputsDone s \<Longrightarrow>
   tick T s = s\<lparr>consumer := Ready (k IterDone)\<rparr>"
  by (simp add: tick_def)

lemma tick_pull_entry:
  "consumer s = Ready st \<Longrightarrow> resume T st = Pull k \<Longrightarrow> \<not> inputsDone s \<Longrightarrow>
   backlog (inputs s) = (v, d) # rest \<Longrightarrow>
   tick T s =
     resume_flushes
       (deliver (s\<lparr>inputs := (inputs s)\<lparr>backlog := rest,
                    voidDeferreds := insert d (voidDeferreds (inputs s))\<rparr>\<rparr>) k v)"
  by (simp add: tick_def pull_entry)

lemma tick_pull_empty:
  "consumer s = Ready st \<Longrightarrow> resume T st = Pull k \<Longrightarrow> \<not> inputsDone s \<Longrightarrow>
   backlog (inputs s) = [] \<Longrightarrow>
   tick T s =
     s\<lparr>inputs := (inputs s)\<lparr>blockedOn := Some (nextDeferred (inputs s)),
                              nextDeferred := Suc (nextDeferred (inputs s))\<rparr>,
       consumer := Blocked (nextDeferred (inputs s)) k\<rparr>"
  by (simp add: tick_def pull_empty)

lemma tick_yield:
  "consumer s = Ready st \<Longrightarrow> resume T st = Yield out st' \<Longrightarrow>
   tick T s = s\<lparr>consumer := Yielded out st', yielded := yielded s @ [out]\<rparr>"
  by (simp add: tick_def)

lemma tick_return:
  "consumer s = Ready st \<Longrightarrow> resume T st = Return \<Longrightarrow> tick T s = s\<lparr>consumer := Returned\<rparr>"
  by (simp add: tick_def)

lemma tick_throw:
  "consumer s = Ready st \<Longrightarrow> resume T st = Throw e \<Longrightarrow> tick T s = s\<lparr>consumer := Threw e\<rparr>"
  by (simp add: tick_def)

lemma tick_push:
  "consumer s = Yielded out st \<Longrightarrow>
   tick T s = s\<lparr>pushed := pushed s @ [out], consumer := Ready st\<rparr>"
  by (simp add: tick_def)

lemma tick_finish:
  "consumer s = Returned \<Longrightarrow>
   tick T s = resume_flushes (s\<lparr>writingFinished := True, consumer := Finished\<rparr>)"
  by (simp add: tick_def)

lemma tick_error:
  "consumer s = Threw e \<Longrightarrow> tick T s = s\<lparr>emitted := emitted s @ [e], consumer := Errored\<rparr>"
  by (simp add: tick_def)

lemma deliver_value:
  "deliver s k (IterValue x) = s\<lparr>consumer := Ready (k (IterValue x)), taken := taken s @ [x]\<rparr>"
  by (simp add: deliver_def)

lemma deliver_done:
  "deliver s k IterDone = s\<lparr>consumer := Ready (k IterDone), inputsDone := True\<rparr>"
  by (simp add: deliver_def)

lemma flush_ok_advance:
  assumes "flush_pre s f"
    and "writingFinished s \<longrightarrow> inflight s = []"
    and "\<forall>d \<in> snd ` set (backlog (inputs s)). d \<notin> voidDeferreds (inputs s)"
  shows "flush_ok (resume_flushes s) (advance s f)"
proof (cases f)
  case (AwaitingClose d)
  with assms show ?thesis by (force simp: image_iff)
next
  case AwaitingWritingFinished
  with assms show ?thesis by auto
next
  case (Flushed r)
  with assms show ?thesis by (cases r) auto
qed

lemma flushes_ok_resume:
  assumes "\<forall>f \<in> set (flushCalls s). flush_pre s f"
    and "closed (inputs s) \<longleftrightarrow> flushCalls s \<noteq> []"
    and "writingFinished s \<longleftrightarrow> consumer s = Finished"
    and "yielded s = pushed s @ unpushed s"
    and "\<forall>d \<in> snd ` set (backlog (inputs s)). d \<notin> voidDeferreds (inputs s)"
  shows "flushes_ok (resume_flushes s)"
proof -
  have "writingFinished s \<longrightarrow> inflight s = []"
    using assms(3) by (simp add: inflight_def)
  then have "\<forall>f \<in> set (flushCalls s). flush_ok (resume_flushes s) (advance s f)"
    using assms(1,5) by (blast intro: flush_ok_advance)
  then show ?thesis
    using assms(2,3,4) by (simp add: flushes_ok_def)
qed

lemma flush_ok_same:
  assumes "backlog (inputs s') = backlog (inputs s)" "inputsDone s' = inputsDone s"
    "writingFinished s' = writingFinished s" "inflight s' = inflight s"
  shows "flush_ok s' f = flush_ok s f"
proof (cases f)
  case (Flushed r)
  with assms show ?thesis by (cases r) simp_all
qed (use assms in simp_all)

lemma resume_flushes_other:
  "ids_ok (inputs (resume_flushes s)) = ids_ok (inputs s)"
  "linked (resume_flushes s) = linked s"
  "conserved (resume_flushes s) = conserved s"
  by (simp_all add: linked_def conserved_def)

text \<open>The stage goes from one of its own states to another, nothing else changes.\<close>

lemma invariant_stage_moves:
  assumes "invariant s" "consumer s = Ready st"
    and "c = Ready st' \<or> c = Returned \<or> c = Threw e"
  shows "invariant (s\<lparr>consumer := c\<rparr>)"
proof -
  let ?s = "s\<lparr>consumer := c\<rparr>"
  have c: "c \<noteq> Idle" "c \<noteq> Finished" "\<And>d k. c \<noteq> Blocked d k" "\<And>out st. c \<noteq> Yielded out st"
    using assms(3) by auto
  have inf: "inflight ?s = inflight s"
    using assms(2,3) by (elim disjE) (simp_all add: inflight_def)
  have unp: "unpushed ?s = unpushed s"
    using assms(2,3) by (elim disjE) (simp_all add: unpushed_def)
  have "flush_ok ?s f = flush_ok s f" for f
    using inf by (intro flush_ok_same) simp_all
  moreover have "linked ?s"
    using assms(1,2) c by (simp add: invariant_def linked_def)
  moreover have "conserved ?s"
    using assms(1) inf by (simp add: invariant_def conserved_def)
  ultimately show ?thesis
    using assms(1,2) unp c by (simp add: invariant_def flushes_ok_def)
qed

lemma invariant_start:
  assumes "invariant s" "consumer s = Idle"
  shows "invariant (s\<lparr>initialized := True, consumer := Ready st\<rparr>)"
proof -
  let ?s = "s\<lparr>initialized := True, consumer := Ready st\<rparr>"
  have inf: "inflight ?s = inflight s"
    using assms(2) by (simp add: inflight_def)
  have unp: "unpushed ?s = unpushed s"
    using assms(2) by (simp add: unpushed_def)
  have "flush_ok ?s f = flush_ok s f" for f
    using inf by (intro flush_ok_same) simp_all
  moreover have "linked ?s"
    using assms by (simp add: invariant_def linked_def)
  moreover have "conserved ?s"
    using assms(1) inf by (simp add: invariant_def conserved_def)
  ultimately show ?thesis
    using assms unp by (simp add: invariant_def flushes_ok_def)
qed

lemma invariant_yield:
  assumes "invariant s" "consumer s = Ready st"
  shows "invariant (s\<lparr>consumer := Yielded out st', yielded := yielded s @ [out]\<rparr>)"
proof -
  let ?s = "s\<lparr>consumer := Yielded out st', yielded := yielded s @ [out]\<rparr>"
  have inf: "inflight ?s = inflight s"
    using assms(2) by (simp add: inflight_def)
  have unp: "unpushed ?s = [out]" "unpushed s = []"
    using assms(2) by (simp_all add: unpushed_def)
  have "flush_ok ?s f = flush_ok s f" for f
    using inf by (intro flush_ok_same) simp_all
  moreover have "linked ?s"
    using assms by (simp add: invariant_def linked_def)
  moreover have "conserved ?s"
    using assms(1) inf by (simp add: invariant_def conserved_def)
  ultimately show ?thesis
    using assms unp by (simp add: invariant_def flushes_ok_def)
qed

lemma invariant_push:
  assumes "invariant s" "consumer s = Yielded out st"
  shows "invariant (s\<lparr>pushed := pushed s @ [out], consumer := Ready st\<rparr>)"
proof -
  let ?s = "s\<lparr>pushed := pushed s @ [out], consumer := Ready st\<rparr>"
  have inf: "inflight ?s = inflight s"
    using assms(2) by (simp add: inflight_def)
  have unp: "unpushed ?s = []" "unpushed s = [out]"
    using assms(2) by (simp_all add: unpushed_def)
  have "flush_ok ?s f = flush_ok s f" for f
    using inf by (intro flush_ok_same) simp_all
  moreover have "linked ?s"
    using assms by (simp add: invariant_def linked_def)
  moreover have "conserved ?s"
    using assms(1) inf by (simp add: invariant_def conserved_def)
  ultimately show ?thesis
    using assms unp by (simp add: invariant_def flushes_ok_def)
qed

lemma invariant_error:
  assumes "invariant s" "consumer s = Threw e"
  shows "invariant (s\<lparr>emitted := emitted s @ [e], consumer := Errored\<rparr>)"
proof -
  let ?s = "s\<lparr>emitted := emitted s @ [e], consumer := Errored\<rparr>"
  have inf: "inflight ?s = inflight s"
    using assms(2) by (simp add: inflight_def)
  have unp: "unpushed ?s = unpushed s"
    using assms(2) by (simp_all add: unpushed_def)
  have "flush_ok ?s f = flush_ok s f" for f
    using inf by (intro flush_ok_same) simp_all
  moreover have "linked ?s"
    using assms by (simp add: invariant_def linked_def)
  moreover have "conserved ?s"
    using assms(1) inf by (simp add: invariant_def conserved_def)
  ultimately show ?thesis
    using assms unp by (simp add: invariant_def flushes_ok_def)
qed

lemma invariant_finish:
  assumes "invariant s" "consumer s = Returned"
  shows "invariant (resume_flushes (s\<lparr>writingFinished := True, consumer := Finished\<rparr>))"
proof -
  let ?s = "s\<lparr>writingFinished := True, consumer := Finished\<rparr>"
  have inf: "inflight ?s = []" "inflight s = []"
    using assms(2) by (simp_all add: inflight_def)
  have unp: "unpushed ?s = []" "unpushed s = []"
    using assms(2) by (simp_all add: unpushed_def)
  have ok: "\<forall>f \<in> set (flushCalls s). flush_ok s f"
    using assms(1) by (simp add: invariant_def flushes_ok_def)
  have "flush_pre ?s f" if "flush_ok s f" for f
    using that inf by (cases "(s, f)" rule: flush_ok.cases) simp_all
  with ok have pre: "\<forall>f \<in> set (flushCalls ?s). flush_pre ?s f"
    by simp
  have "flushes_ok (resume_flushes ?s)"
    using pre assms unp by (intro flushes_ok_resume) (simp_all add: invariant_def flushes_ok_def ids_ok_def)
  moreover have "linked ?s"
    using assms by (simp add: invariant_def linked_def)
  moreover have "conserved ?s"
    using assms(1) inf by (simp add: invariant_def conserved_def)
  moreover have "ids_ok (inputs ?s)"
    using assms(1) by (simp add: invariant_def)
  ultimately show ?thesis
    by (simp add: invariant_def resume_flushes_other)
qed

lemma invariant_pull_empty:
  assumes "invariant s" "consumer s = Ready st" "\<not> inputsDone s" "backlog (inputs s) = []"
  shows "invariant
    (s\<lparr>inputs := (inputs s)\<lparr>blockedOn := Some (nextDeferred (inputs s)),
                             nextDeferred := Suc (nextDeferred (inputs s))\<rparr>,
       consumer := Blocked (nextDeferred (inputs s)) k\<rparr>)"
proof -
  let ?n = "nextDeferred (inputs s)"
  let ?s = "s\<lparr>inputs := (inputs s)\<lparr>blockedOn := Some ?n, nextDeferred := Suc ?n\<rparr>,
              consumer := Blocked ?n k\<rparr>"
  have fresh: "iterDeferreds (inputs s) ?n = None"
    using assms(1) by (simp add: invariant_def ids_ok_def)
  have inf: "inflight ?s = []" "inflight s = []"
    using assms(2) fresh by (simp_all add: inflight_def)
  have unp: "unpushed ?s = []" "unpushed s = []"
    using assms(2) by (simp_all add: unpushed_def)
  have "flush_ok ?s f = flush_ok s f" for f
    using inf by (intro flush_ok_same) simp_all
  then have "flushes_ok ?s"
    using assms(1,2) unp by (simp add: invariant_def flushes_ok_def)
  moreover have "linked ?s"
    using assms fresh by (simp add: invariant_def linked_def)
  moreover have "conserved ?s"
    using assms(1) inf by (simp add: invariant_def conserved_def)
  moreover have "ids_ok (inputs ?s)"
    using assms(1,4) fresh by (auto simp: invariant_def ids_ok_def less_Suc_eq)
  ultimately show ?thesis
    by (simp add: invariant_def)
qed

lemma invariant_pull_entry:
  assumes "invariant s" "consumer s = Ready st" "\<not> inputsDone s"
    "backlog (inputs s) = (v, d) # rest"
  shows "invariant
    (resume_flushes
       (deliver (s\<lparr>inputs := (inputs s)\<lparr>backlog := rest,
                    voidDeferreds := insert d (voidDeferreds (inputs s))\<rparr>\<rparr>) k v))"
proof -
  let ?w = "(inputs s)\<lparr>backlog := rest, voidDeferreds := insert d (voidDeferreds (inputs s))\<rparr>"
  let ?s = "deliver (s\<lparr>inputs := ?w\<rparr>) k v"
  have ids: "ids_ok (inputs s)"
    using assms(1) by (simp add: invariant_def)
  have "?w = fst (pull (inputs s))"
    using assms(4) by (simp add: pull_entry)
  then have ids': "ids_ok ?w"
    using ids ids_ok_pull [of "inputs s"] by simp
  have fields: "inputs ?s = ?w" "consumer ?s = Ready (k v)" "flushCalls ?s = flushCalls s"
    "writingFinished ?s = writingFinished s" "pushed ?s = pushed s" "yielded ?s = yielded s"
    "written ?s = written s" "initialized ?s = initialized s"
    "inputsDone ?s = (v = IterDone)" "taken ?s = taken s @ (case v of IterValue x \<Rightarrow> [x] | IterDone \<Rightarrow> [])"
    using assms(3) by (cases v; simp add: deliver_def)+
  have inf: "inflight ?s = []" "inflight s = []"
    using assms(2) fields by (simp_all add: inflight_def)
  have unp: "unpushed ?s = []" "unpushed s = []"
    using assms(2) fields by (simp_all add: unpushed_def)
  have ok: "\<forall>f \<in> set (flushCalls s). flush_ok s f"
    using assms(1) by (simp add: invariant_def flushes_ok_def)
  have "flush_pre ?s f" if "flush_ok s f" for f
    using that inf fields assms(3,4) by (cases "(s, f)" rule: flush_ok.cases) auto
  with ok have pre: "\<forall>f \<in> set (flushCalls ?s). flush_pre ?s f"
    by (simp add: fields)
  have "flushes_ok (resume_flushes ?s)"
  proof (intro flushes_ok_resume)
    show "\<forall>f \<in> set (flushCalls ?s). flush_pre ?s f" by (fact pre)
    show "closed (inputs ?s) = (flushCalls ?s \<noteq> [])"
      using assms(1) by (simp add: fields invariant_def flushes_ok_def)
    show "writingFinished ?s = (consumer ?s = Finished)"
      using assms(1,2) by (simp add: fields invariant_def flushes_ok_def)
    show "yielded ?s = pushed ?s @ unpushed ?s"
      using assms(1) unp by (simp add: fields invariant_def flushes_ok_def)
    show "\<forall>d \<in> snd ` set (backlog (inputs ?s)). d \<notin> voidDeferreds (inputs ?s)"
      using ids' by (simp add: fields ids_ok_def)
  qed
  moreover have "linked ?s"
    using assms(1,2) by (simp add: fields invariant_def linked_def)
  moreover have "conserved ?s"
    using assms(1,3,4) inf fields by (cases v) (simp_all add: invariant_def conserved_def)
  moreover have "ids_ok (inputs ?s)"
    using ids' by (simp add: fields)
  ultimately show ?thesis
    by (simp add: invariant_def resume_flushes_other)
qed

lemma invariant_resumed:
  assumes "invariant s" "consumer s = Blocked d k" "iterDeferreds (inputs s) d = Some v"
  shows "invariant (deliver s k v)"
proof -
  let ?s = "deliver s k v"
  have ids: "ids_ok (inputs s)" and lnk: "linked s"
    using assms(1) by (simp_all add: invariant_def)
  have notdone: "\<not> inputsDone s"
    using lnk assms(2) by (simp add: linked_def)
  have unblocked: "blockedOn (inputs s) = None"
  proof (cases "blockedOn (inputs s)")
    case (Some d')
    then have "d' = d" using lnk assms(2) by (auto simp: linked_def)
    then show ?thesis using ids Some assms(3) by (auto simp: ids_ok_def)
  qed simp
  have fields: "inputs ?s = inputs s" "consumer ?s = Ready (k v)" "flushCalls ?s = flushCalls s"
    "writingFinished ?s = writingFinished s" "pushed ?s = pushed s" "yielded ?s = yielded s"
    "written ?s = written s" "initialized ?s = initialized s"
    "inputsDone ?s = (v = IterDone)" "taken ?s = taken s @ (case v of IterValue x \<Rightarrow> [x] | IterDone \<Rightarrow> [])"
    using notdone by (cases v; simp add: deliver_def)+
  have inf: "inflight ?s = []" "inflight s = [v]"
    using assms(2,3) fields by (simp_all add: inflight_def)
  have unp: "unpushed ?s = []" "unpushed s = []"
    using assms(2) fields by (simp_all add: unpushed_def)
  have ok: "\<forall>f \<in> set (flushCalls s). flush_ok s f"
    using assms(1) by (simp add: invariant_def flushes_ok_def)
  have "flush_ok ?s f" if "flush_ok s f" for f
    using that inf fields notdone by (cases "(s, f)" rule: flush_ok.cases) auto
  with ok have "\<forall>f \<in> set (flushCalls ?s). flush_ok ?s f"
    by (simp add: fields)
  then have "flushes_ok ?s"
    using assms(1,2) unp by (simp add: fields invariant_def flushes_ok_def)
  moreover have "linked ?s"
    using assms(1,2) unblocked by (simp add: fields invariant_def linked_def)
  moreover have "conserved ?s"
    using assms(1) notdone inf fields by (cases v) (simp_all add: invariant_def conserved_def)
  moreover have "ids_ok (inputs ?s)"
    using ids by (simp add: fields)
  ultimately show ?thesis
    by (simp add: invariant_def)
qed

lemma invariant_tick:
  assumes "invariant s"
  shows "invariant (tick T s)"
proof (cases "consumer s")
  case Idle
  then show ?thesis using assms by (simp add: tick_stays)
next
  case (Ready st)
  show ?thesis
  proof (cases "resume T st")
    case (Pull k)
    show ?thesis
    proof (cases "inputsDone s")
      case True
      then show ?thesis
        using assms Ready Pull invariant_stage_moves [of s st "Ready (k IterDone)"]
        by (simp add: tick_pull_after_done)
    next
      case False
      show ?thesis
      proof (cases "backlog (inputs s)")
        case Nil
        then show ?thesis
          using assms Ready Pull False by (simp add: tick_pull_empty invariant_pull_empty)
      next
        case (Cons entry rest)
        then obtain v d where "backlog (inputs s) = (v, d) # rest"
          by (cases entry) simp
        then show ?thesis
          using assms Ready Pull False by (simp add: tick_pull_entry invariant_pull_entry)
      qed
    qed
  next
    case (Yield out st')
    then show ?thesis
      using assms Ready by (simp add: tick_yield invariant_yield)
  next
    case Return
    then show ?thesis
      using assms Ready invariant_stage_moves [of s st Returned]
      by (simp add: tick_return)
  next
    case (Throw e)
    then show ?thesis
      using assms Ready invariant_stage_moves [of s st "Threw e" _ e]
      by (simp add: tick_throw)
  qed
next
  case (Blocked d k)
  then show ?thesis
    using assms
    by (cases "iterDeferreds (inputs s) d") (simp_all add: tick_stays tick_resumed invariant_resumed)
next
  case (Yielded out st)
  then show ?thesis using assms by (simp add: tick_push invariant_push)
next
  case Returned
  then show ?thesis using assms by (simp add: tick_finish invariant_finish)
next
  case (Threw e)
  then show ?thesis using assms by (simp add: tick_error invariant_error)
next
  case Finished
  then show ?thesis using assms by (simp add: tick_stays)
next
  case Errored
  then show ?thesis using assms by (simp add: tick_stays)
qed

lemma invariant_initializeOnce:
  assumes "invariant s"
  shows "invariant (initializeOnce T s)"
proof (cases "initialized s")
  case True
  then show ?thesis using assms by (simp add: initializeOnce_def)
next
  case False
  then have "consumer s = Idle"
    using assms by (simp add: invariant_def linked_def)
  then have "invariant (s\<lparr>initialized := True, consumer := Ready (start T)\<rparr>)"
    using assms by (rule invariant_start [rotated])
  then show ?thesis
    using False by (simp add: initializeOnce_def invariant_tick)
qed

subsection \<open>\<open>_transform\<close> and \<open>_flush\<close>, case by case\<close>

lemma private_write_handoff:
  "blockedOn w = Some d \<Longrightarrow>
   private_write w v = (w\<lparr>iterDeferreds := (iterDeferreds w)(d \<mapsto> v), blockedOn := None\<rparr>, Resolved)"
  by (simp add: private_write_def)

lemma private_write_queue:
  "blockedOn w = None \<Longrightarrow>
   private_write w v =
     (w\<lparr>backlog := backlog w @ [(v, nextDeferred w)], nextDeferred := Suc (nextDeferred w)\<rparr>,
      WaitsOn (nextDeferred w))"
  by (simp add: private_write_def Let_def)

lemma transform_closed:
  "closed (inputs (initializeOnce T s)) \<Longrightarrow>
   transform T s x =
     (initializeOnce T s)\<lparr>transformCalls :=
        transformCalls (initializeOnce T s) @ [Rejected WroteToClosed]\<rparr>"
  by (simp add: transform_def write_def Let_def)

lemma transform_open:
  "\<not> closed (inputs (initializeOnce T s)) \<Longrightarrow>
   transform T s x =
     (initializeOnce T s)
       \<lparr>inputs := fst (private_write (inputs (initializeOnce T s)) (IterValue x)),
        transformCalls := transformCalls (initializeOnce T s) @ [Resolved],
        written := written (initializeOnce T s) @ [x]\<rparr>"
  by (simp add: transform_def write_def Let_def)

lemma flush_handoff:
  "blockedOn (inputs s) = Some d \<Longrightarrow>
   flush s =
     resume_flushes
       (s\<lparr>inputs := (inputs s)\<lparr>closed := True,
               iterDeferreds := (iterDeferreds (inputs s))(d \<mapsto> IterDone), blockedOn := None\<rparr>,
          flushCalls := flushCalls s @ [AwaitingWritingFinished]\<rparr>)"
  by (simp add: flush_def close_def private_write_handoff)

lemma flush_queue:
  "blockedOn (inputs s) = None \<Longrightarrow>
   flush s =
     resume_flushes
       (s\<lparr>inputs := (inputs s)\<lparr>closed := True,
               backlog := backlog (inputs s) @ [(IterDone, nextDeferred (inputs s))],
               nextDeferred := Suc (nextDeferred (inputs s))\<rparr>,
          flushCalls := flushCalls s @ [AwaitingClose (nextDeferred (inputs s))]\<rparr>)"
  by (simp add: flush_def close_def private_write_queue)

lemma invariant_rejected:
  "invariant (s\<lparr>transformCalls := tc\<rparr>) = invariant s"
proof -
  let ?s = "s\<lparr>transformCalls := tc\<rparr>"
  have inf: "inflight ?s = inflight s"
    by (simp add: inflight_def split: consumer.splits)
  have unp: "unpushed ?s = unpushed s"
    by (simp add: unpushed_def split: consumer.splits)
  have "flush_ok ?s f = flush_ok s f" for f
    using inf by (intro flush_ok_same) simp_all
  then have "flushes_ok ?s = flushes_ok s"
    using unp by (simp add: flushes_ok_def)
  moreover have "linked ?s = linked s"
    by (simp add: linked_def)
  moreover have "conserved ?s = conserved s"
    using inf by (simp add: conserved_def)
  ultimately show ?thesis
    by (simp add: invariant_def)
qed

lemma invariant_write_handoff:
  assumes "invariant s" "\<not> closed (inputs s)" "blockedOn (inputs s) = Some d"
  shows "invariant
    (s\<lparr>inputs := (inputs s)\<lparr>iterDeferreds := (iterDeferreds (inputs s))(d \<mapsto> IterValue x),
                             blockedOn := None\<rparr>,
       transformCalls := tc, written := written s @ [x]\<rparr>)"
proof -
  let ?w = "(inputs s)\<lparr>iterDeferreds := (iterDeferreds (inputs s))(d \<mapsto> IterValue x),
                        blockedOn := None\<rparr>"
  let ?s = "s\<lparr>inputs := ?w, transformCalls := tc, written := written s @ [x]\<rparr>"
  have ids: "ids_ok (inputs s)" and lnk: "linked s" and fl: "flushes_ok s" and con: "conserved s"
    using assms(1) by (simp_all add: invariant_def)
  obtain k where k: "consumer s = Blocked d k"
    using lnk assms(3) by (auto simp: linked_def)
  have empty: "backlog (inputs s) = []" "iterDeferreds (inputs s) d = None"
    using ids assms(3) by (simp_all add: ids_ok_def)
  have none: "flushCalls s = []"
    using fl assms(2) by (simp add: flushes_ok_def)
  have notdone: "\<not> inputsDone s"
    using lnk k by (simp add: linked_def)
  have "?w = fst (private_write (inputs s) (IterValue x))"
    using assms(3) by (simp add: private_write_handoff)
  then have "ids_ok ?w"
    using ids ids_ok_private_write [of "inputs s"] by simp
  moreover have "linked ?s"
    using lnk k by (simp add: linked_def)
  moreover have "flushes_ok ?s"
    using fl none k by (simp add: flushes_ok_def unpushed_def)
  moreover have "conserved ?s"
    using con none k empty notdone by (simp add: conserved_def inflight_def)
  ultimately show ?thesis
    by (simp add: invariant_def)
qed

lemma invariant_write_queue:
  assumes "invariant s" "\<not> closed (inputs s)" "blockedOn (inputs s) = None"
  shows "invariant
    (s\<lparr>inputs := (inputs s)\<lparr>backlog := backlog (inputs s) @ [(IterValue x, nextDeferred (inputs s))],
                             nextDeferred := Suc (nextDeferred (inputs s))\<rparr>,
       transformCalls := tc, written := written s @ [x]\<rparr>)"
proof -
  let ?w = "(inputs s)\<lparr>backlog := backlog (inputs s) @ [(IterValue x, nextDeferred (inputs s))],
                        nextDeferred := Suc (nextDeferred (inputs s))\<rparr>"
  let ?s = "s\<lparr>inputs := ?w, transformCalls := tc, written := written s @ [x]\<rparr>"
  have ids: "ids_ok (inputs s)" and lnk: "linked s" and fl: "flushes_ok s" and con: "conserved s"
    using assms(1) by (simp_all add: invariant_def)
  have none: "flushCalls s = []"
    using fl assms(2) by (simp add: flushes_ok_def)
  have inf: "inflight ?s = inflight s"
    by (simp add: inflight_def split: consumer.splits)
  have "?w = fst (private_write (inputs s) (IterValue x))"
    using assms(3) by (simp add: private_write_queue)
  then have "ids_ok ?w"
    using ids ids_ok_private_write [of "inputs s"] by simp
  moreover have "linked ?s"
    using lnk assms(3) by (auto simp: linked_def less_Suc_eq)
  moreover have "flushes_ok ?s"
    using fl none by (simp add: flushes_ok_def unpushed_def)
  moreover have "conserved ?s"
    using con none inf by (simp add: conserved_def)
  ultimately show ?thesis
    by (simp add: invariant_def)
qed

lemma invariant_transform:
  assumes "invariant s"
  shows "invariant (transform T s x)"
proof -
  let ?s = "initializeOnce T s"
  have inv: "invariant ?s"
    using assms by (rule invariant_initializeOnce)
  show ?thesis
  proof (cases "closed (inputs ?s)")
    case True
    then show ?thesis
      using inv by (simp add: transform_closed invariant_rejected)
  next
    case False
    show ?thesis
    proof (cases "blockedOn (inputs ?s)")
      case None
      then show ?thesis
        using inv False
        by (simp add: transform_open private_write_queue invariant_write_queue)
    next
      case (Some d)
      then show ?thesis
        using inv False
        by (simp add: transform_open private_write_handoff invariant_write_handoff)
    qed
  qed
qed

lemma append_done: "xs @ replicate n IterDone = ys \<Longrightarrow> xs @ IterDone # replicate n IterDone = ys @ [IterDone]"
  by (auto simp: replicate_append_same)

lemma invariant_flush_handoff:
  assumes "invariant s" "blockedOn (inputs s) = Some d"
  shows "invariant
    (resume_flushes
       (s\<lparr>inputs := (inputs s)\<lparr>closed := True,
               iterDeferreds := (iterDeferreds (inputs s))(d \<mapsto> IterDone), blockedOn := None\<rparr>,
          flushCalls := flushCalls s @ [AwaitingWritingFinished]\<rparr>))"
proof -
  let ?w = "(inputs s)\<lparr>closed := True,
               iterDeferreds := (iterDeferreds (inputs s))(d \<mapsto> IterDone), blockedOn := None\<rparr>"
  let ?s = "s\<lparr>inputs := ?w, flushCalls := flushCalls s @ [AwaitingWritingFinished]\<rparr>"
  have ids: "ids_ok (inputs s)" and lnk: "linked s" and fl: "flushes_ok s" and con: "conserved s"
    using assms(1) by (simp_all add: invariant_def)
  obtain k where k: "consumer s = Blocked d k"
    using lnk assms(2) by (auto simp: linked_def)
  have empty: "backlog (inputs s) = []" "iterDeferreds (inputs s) d = None"
    using ids assms(2) by (simp_all add: ids_ok_def)
  have notdone: "\<not> inputsDone s"
    using lnk k by (simp add: linked_def)
  have inf: "inflight ?s = [IterDone]" "inflight s = []"
    using k empty by (simp_all add: inflight_def)
  have unp: "unpushed ?s = []" "unpushed s = []"
    using k by (simp_all add: unpushed_def)
  have "?w = fst (close (inputs s))"
    using assms(2) by (simp add: close_def private_write_handoff)
  then have ids': "ids_ok ?w"
    using ids ids_ok_close [of "inputs s"] by simp
  have ok: "\<forall>f \<in> set (flushCalls s). flush_ok s f"
    using fl by (simp add: flushes_ok_def)
  have "flush_pre ?s f" if "flush_ok s f" for f
    using that inf notdone by (cases "(s, f)" rule: flush_ok.cases) simp_all
  with ok inf have pre: "\<forall>f \<in> set (flushCalls ?s). flush_pre ?s f"
    by simp
  have "flushes_ok (resume_flushes ?s)"
  proof (intro flushes_ok_resume)
    show "\<forall>f \<in> set (flushCalls ?s). flush_pre ?s f" by (fact pre)
    show "closed (inputs ?s) = (flushCalls ?s \<noteq> [])" by simp
    show "writingFinished ?s = (consumer ?s = Finished)"
      using fl by (simp add: flushes_ok_def)
    show "yielded ?s = pushed ?s @ unpushed ?s"
      using fl unp by (simp add: flushes_ok_def)
    show "\<forall>d \<in> snd ` set (backlog (inputs ?s)). d \<notin> voidDeferreds (inputs ?s)"
      using empty by simp
  qed
  moreover have "linked ?s"
    using lnk k by (simp add: linked_def)
  moreover have "conserved ?s"
    using con k empty notdone inf by (simp add: conserved_def append_done)
  moreover have "ids_ok (inputs ?s)"
    using ids' by simp
  ultimately show ?thesis
    by (simp add: invariant_def resume_flushes_other)
qed

lemma invariant_flush_queue:
  assumes "invariant s" "blockedOn (inputs s) = None"
  shows "invariant
    (resume_flushes
       (s\<lparr>inputs := (inputs s)\<lparr>closed := True,
               backlog := backlog (inputs s) @ [(IterDone, nextDeferred (inputs s))],
               nextDeferred := Suc (nextDeferred (inputs s))\<rparr>,
          flushCalls := flushCalls s @ [AwaitingClose (nextDeferred (inputs s))]\<rparr>))"
proof -
  let ?n = "nextDeferred (inputs s)"
  let ?w = "(inputs s)\<lparr>closed := True, backlog := backlog (inputs s) @ [(IterDone, ?n)],
               nextDeferred := Suc ?n\<rparr>"
  let ?s = "s\<lparr>inputs := ?w, flushCalls := flushCalls s @ [AwaitingClose ?n]\<rparr>"
  have ids: "ids_ok (inputs s)" and lnk: "linked s" and fl: "flushes_ok s" and con: "conserved s"
    using assms(1) by (simp_all add: invariant_def)
  have inf: "inflight ?s = inflight s"
    by (simp add: inflight_def split: consumer.splits)
  have unp: "unpushed ?s = unpushed s"
    by (simp add: unpushed_def split: consumer.splits)
  have "?w = fst (close (inputs s))"
    using assms(2) by (simp add: close_def private_write_queue)
  then have ids': "ids_ok ?w"
    using ids ids_ok_close [of "inputs s"] by simp
  have ok: "\<forall>f \<in> set (flushCalls s). flush_ok s f"
    using fl by (simp add: flushes_ok_def)
  have "flush_pre ?s f" if "flush_ok s f" for f
    using that inf by (cases "(s, f)" rule: flush_ok.cases) simp_all
  with ok have pre: "\<forall>f \<in> set (flushCalls ?s). flush_pre ?s f"
    by simp
  have "flushes_ok (resume_flushes ?s)"
  proof (intro flushes_ok_resume)
    show "\<forall>f \<in> set (flushCalls ?s). flush_pre ?s f" by (fact pre)
    show "closed (inputs ?s) = (flushCalls ?s \<noteq> [])" by simp
    show "writingFinished ?s = (consumer ?s = Finished)"
      using fl by (simp add: flushes_ok_def)
    show "yielded ?s = pushed ?s @ unpushed ?s"
      using fl unp by (simp add: flushes_ok_def)
    show "\<forall>d \<in> snd ` set (backlog (inputs ?s)). d \<notin> voidDeferreds (inputs ?s)"
      using ids' by (simp add: ids_ok_def)
  qed
  moreover have "linked ?s"
  proof -
    have "d < Suc ?n" if "consumer s = Blocked d k" for d k
      using lnk that by (simp add: linked_def less_Suc_eq)
    then show ?thesis
      using lnk assms(2) by (simp add: linked_def)
  qed
  moreover have "conserved ?s"
    using con inf by (simp add: conserved_def append_done)
  moreover have "ids_ok (inputs ?s)"
    using ids' by simp
  ultimately show ?thesis
    by (simp add: invariant_def resume_flushes_other)
qed

lemma invariant_flush:
  assumes "invariant s"
  shows "invariant (flush s)"
proof (cases "blockedOn (inputs s)")
  case None
  then show ?thesis
    using assms by (simp add: flush_queue invariant_flush_queue)
next
  case (Some d)
  then show ?thesis
    using assms by (simp add: flush_handoff invariant_flush_handoff)
qed

lemma invariant_step: "invariant s \<Longrightarrow> invariant (step T s e)"
  by (cases e) (simp_all add: invariant_transform invariant_flush invariant_tick)

lemma invariant_run: "invariant s \<Longrightarrow> invariant (run T s es)"
  by (induction es arbitrary: s) (simp_all add: run_def invariant_step)

lemma values_then_done_prefix:
  "map IterValue ws @ replicate n IterDone = map IterValue ts @ rest \<Longrightarrow> \<exists>r. ws = ts @ r"
proof (induction ts arbitrary: ws)
  case Nil
  then show ?case by simp
next
  case (Cons t ts)
  then show ?case
    by (cases ws; cases n) auto
qed

lemma values_then_done_eq:
  "map IterValue ws @ replicate n IterDone = map IterValue ts @ IterDone # rest \<Longrightarrow> ws = ts"
proof (induction ts arbitrary: ws)
  case Nil
  then show ?case by (cases ws) auto
next
  case (Cons t ts)
  then show ?case
    by (cases ws; cases n) auto
qed

lemma taken_prefix_written:
  assumes "conserved s"
  shows "\<exists>r. written s = taken s @ r"
  using assms unfolding conserved_def by (rule values_then_done_prefix)

lemma done_after_all_taken:
  assumes "conserved s" "inputsDone s"
  shows "taken s = written s \<and> flushCalls s \<noteq> []"
proof -
  have eq: "map IterValue (written s) @ replicate (length (flushCalls s)) IterDone =
        map IterValue (taken s) @ IterDone # (inflight s @ map fst (backlog (inputs s)))"
    using assms by (simp add: conserved_def)
  then have "written s = taken s"
    by (rule values_then_done_eq)
  moreover from eq this have "flushCalls s \<noteq> []"
    by auto
  ultimately show ?thesis by simp
qed

lemma flushed_after_all:
  assumes "Flushed r \<in> set (flushCalls (run T new_stream es))"
  shows "r = None
    \<and> closed (inputs (run T new_stream es))
    \<and> inputsDone (run T new_stream es)
    \<and> taken (run T new_stream es) = written (run T new_stream es)
    \<and> consumer (run T new_stream es) = Finished
    \<and> pushed (run T new_stream es) = yielded (run T new_stream es)"
proof -
  let ?s = "run T new_stream es"
  have inv: "invariant ?s"
    by (simp add: invariant_run invariant_new)
  then have fl: "flushes_ok ?s" and con: "conserved ?s"
    by (simp_all add: invariant_def)
  from fl assms have ok: "flush_ok ?s (Flushed r)"
    by (simp add: flushes_ok_def)
  then have r: "r = None"
    by (cases r) simp_all
  with ok have fin: "inputsDone ?s" "writingFinished ?s"
    by simp_all
  with fl have c: "consumer ?s = Finished"
    by (simp add: flushes_ok_def)
  then have "unpushed ?s = []"
    by (simp add: unpushed_def)
  with fl have "pushed ?s = yielded ?s"
    by (simp add: flushes_ok_def)
  moreover from fl assms have "closed (inputs ?s)"
    by (auto simp: flushes_ok_def)
  moreover from con fin have "taken ?s = written ?s"
    by (simp add: done_after_all_taken)
  ultimately show ?thesis
    using r fin c by simp
qed

subsection \<open>The identity stage\<close>

lemma identity_fields [simp]:
  "start identityIter = AtLoop" "resume identityIter = identity_resume"
  by (simp_all add: identityIter_def)

lemma identity_inv_new: "identity_inv new_stream"
  by (simp add: identity_inv_def new_stream_def)

lemma identity_inv_tick:
  assumes "identity_inv s"
  shows "identity_inv (tick identityIter s)"
proof (cases "consumer s")
  case Idle
  then show ?thesis using assms by (simp add: tick_stays)
next
  case (Ready st)
  show ?thesis
  proof (cases st)
    case AtLoop
    with Ready assms have nd: "\<not> inputsDone s" and tk: "taken s = pushed s"
      by (simp_all add: identity_inv_def)
    show ?thesis
    proof (cases "backlog (inputs s)")
      case Nil
      then show ?thesis
        using Ready AtLoop nd tk
        by (simp add: tick_pull_empty [where k = identity_next] identity_inv_def)
    next
      case (Cons entry rest)
      then obtain v d where "backlog (inputs s) = (v, d) # rest"
        by (cases entry) simp
      then show ?thesis
        using Ready AtLoop nd tk
        by (cases v)
          (simp_all add: tick_pull_entry [where k = identity_next] identity_inv_def
            deliver_value deliver_done)
    qed
  next
    case (Have x)
    then show ?thesis
      using Ready assms by (simp add: tick_yield [where out = x and st' = AtLoop] identity_inv_def)
  next
    case AtEnd
    then show ?thesis
      using Ready assms by (simp add: tick_return identity_inv_def)
  qed
next
  case (Blocked d k)
  show ?thesis
  proof (cases "iterDeferreds (inputs s) d")
    case None
    then show ?thesis using Blocked assms by (simp add: tick_stays)
  next
    case (Some v)
    then show ?thesis
      using Blocked assms
      by (cases v) (simp_all add: tick_resumed identity_inv_def deliver_value deliver_done)
  qed
next
  case (Yielded out st)
  then show ?thesis using assms by (simp add: tick_push identity_inv_def)
next
  case Returned
  then show ?thesis using assms by (simp add: tick_finish identity_inv_def)
next
  case (Threw e)
  then show ?thesis using assms by (simp add: identity_inv_def)
next
  case Finished
  then show ?thesis using assms by (simp add: tick_stays)
next
  case Errored
  then show ?thesis using assms by (simp add: tick_stays)
qed

lemma identity_inv_initializeOnce:
  assumes "identity_inv s" "invariant s"
  shows "identity_inv (initializeOnce identityIter s)"
proof (cases "initialized s")
  case True
  then show ?thesis using assms by (simp add: initializeOnce_def)
next
  case False
  then have "consumer s = Idle"
    using assms(2) by (simp add: invariant_def linked_def)
  then have "identity_inv (s\<lparr>initialized := True, consumer := Ready (start identityIter)\<rparr>)"
    using assms(1) by (simp add: identity_inv_def)
  then show ?thesis
    using False by (simp add: initializeOnce_def identity_inv_tick)
qed

lemma identity_inv_transform:
  assumes "identity_inv s" "invariant s"
  shows "identity_inv (transform identityIter s x)"
  using identity_inv_initializeOnce [OF assms]
  by (cases "closed (inputs (initializeOnce identityIter s))")
    (simp_all add: transform_closed transform_open identity_inv_def)

lemma identity_inv_flush:
  assumes "identity_inv s"
  shows "identity_inv (flush s)"
  using assms
  by (cases "blockedOn (inputs s)") (simp_all add: flush_queue flush_handoff identity_inv_def)

lemma identity_inv_step:
  "identity_inv s \<Longrightarrow> invariant s \<Longrightarrow> identity_inv (step identityIter s e)"
  by (cases e) (simp_all add: identity_inv_transform identity_inv_flush identity_inv_tick)

lemma identity_inv_run:
  "identity_inv s \<Longrightarrow> invariant s \<Longrightarrow> identity_inv (run identityIter s es)"
proof (induction es rule: rev_induct)
  case Nil
  then show ?case by (simp add: run_def)
next
  case (snoc e es)
  then show ?case
    by (simp add: run_snoc identity_inv_step invariant_run)
qed

lemma identity_pushed_prefix:
  assumes "identity_inv s"
  shows "\<exists>r. taken s = pushed s @ r"
  using assms unfolding identity_inv_def
  by (cases "(consumer s, inputsDone s, taken s, pushed s)" rule: identity_ok.cases) auto

lemma identity_finished:
  assumes "identity_inv s" "consumer s = Finished"
  shows "taken s = pushed s \<and> inputsDone s"
  using assms by (simp add: identity_inv_def)

subsection \<open>The identity stage, served input by input\<close>

lemma waiting_first:
  "waiting (run identityIter new_stream [Transform x, Tick, Tick, Tick, Tick]) [x]"
proof -
  let ?s = "run identityIter new_stream [Transform x, Tick, Tick, Tick, Tick]"
  have "invariant ?s"
    by (simp add: invariant_run invariant_new)
  moreover have "initialized ?s \<and> \<not> closed (inputs ?s)
     \<and> blockedOn (inputs ?s) = Some 1 \<and> consumer ?s = Blocked 1 identity_next
     \<and> pushed ?s = [x] \<and> written ?s = [x] \<and> taken ?s = [x]"
    by (simp add: run_def transform_def initializeOnce_def tick_def write_def private_write_def
        pull_def deliver_def new_stream_def new_iterable_def Let_def)
  ultimately show ?thesis
    by (simp add: waiting_def)
qed

lemma waiting_next:
  assumes "waiting s xs"
  shows "waiting (run identityIter s [Transform x, Tick, Tick, Tick, Tick]) (xs @ [x])"
proof -
  let ?T = "identityIter :: ('a, 'a, 'a identity_state) transform_iter"
  from assms obtain d where inv: "invariant s" and ini: "initialized s"
    and op: "\<not> closed (inputs s)" and b: "blockedOn (inputs s) = Some d"
    and c: "consumer s = Blocked d identity_next"
    and f: "pushed s = xs" "written s = xs" "taken s = xs"
    by (auto simp: waiting_def)
  have nd: "\<not> inputsDone s"
    using inv c by (simp add: invariant_def linked_def)
  define s1 where "s1 = transform ?T s x"
  have s1: "s1 = s\<lparr>inputs := (inputs s)\<lparr>iterDeferreds := (iterDeferreds (inputs s))(d \<mapsto> IterValue x),
                                       blockedOn := None\<rparr>,
                 transformCalls := transformCalls s @ [Resolved], written := written s @ [x]\<rparr>"
    using ini op b by (simp add: s1_def transform_open initializeOnce_def private_write_handoff)
  define s2 where "s2 = tick ?T s1"
  have "consumer s1 = Blocked d identity_next" "iterDeferreds (inputs s1) d = Some (IterValue x)"
    using c by (simp_all add: s1)
  then have s2: "s2 = s1\<lparr>consumer := Ready (Have x), taken := taken s1 @ [x]\<rparr>"
    by (simp add: s2_def tick_resumed deliver_value)
  define s3 where "s3 = tick ?T s2"
  have s3: "s3 = s2\<lparr>consumer := Yielded x AtLoop, yielded := yielded s2 @ [x]\<rparr>"
    by (simp add: s3_def s2 tick_yield [where st = "Have x" and out = x and st' = AtLoop])
  define s4 where "s4 = tick ?T s3"
  have s4: "s4 = s3\<lparr>pushed := pushed s3 @ [x], consumer := Ready AtLoop\<rparr>"
    by (simp add: s4_def s3 tick_push [where out = x and st = AtLoop])
  define s5 where "s5 = tick ?T s4"
  have "consumer s4 = Ready AtLoop" "\<not> inputsDone s4" "backlog (inputs s4) = []"
    using nd inv b by (simp_all add: s4 s3 s2 s1 invariant_def ids_ok_def)
  then have s5: "s5 = s4\<lparr>inputs := (inputs s4)\<lparr>blockedOn := Some (nextDeferred (inputs s4)),
                              nextDeferred := Suc (nextDeferred (inputs s4))\<rparr>,
                  consumer := Blocked (nextDeferred (inputs s4)) identity_next\<rparr>"
    by (simp add: s5_def tick_pull_empty [where st = AtLoop and k = identity_next])
  have run: "run ?T s [Transform x, Tick, Tick, Tick, Tick] = s5"
    by (simp add: run_def s5_def s4_def s3_def s2_def s1_def)
  have "invariant s5"
    unfolding run [symmetric] using inv by (rule invariant_run)
  moreover have "initialized s5" "\<not> closed (inputs s5)"
    "blockedOn (inputs s5) = Some (nextDeferred (inputs s4))"
    "consumer s5 = Blocked (nextDeferred (inputs s4)) identity_next"
    "pushed s5 = xs @ [x]" "written s5 = xs @ [x]" "taken s5 = xs @ [x]"
    using ini op f by (simp_all add: s5 s4 s3 s2 s1)
  ultimately show ?thesis
    by (simp add: waiting_def run)
qed

lemma waiting_flush:
  assumes "waiting s xs"
  shows "pushed (run identityIter s [Flush, Tick, Tick, Tick]) = xs
    \<and> written (run identityIter s [Flush, Tick, Tick, Tick]) = xs
    \<and> flushCalls (run identityIter s [Flush, Tick, Tick, Tick]) = [Flushed None]
    \<and> consumer (run identityIter s [Flush, Tick, Tick, Tick]) = Finished"
proof -
  let ?T = "identityIter :: ('a, 'a, 'a identity_state) transform_iter"
  from assms obtain d where inv: "invariant s" and ini: "initialized s"
    and op: "\<not> closed (inputs s)" and b: "blockedOn (inputs s) = Some d"
    and c: "consumer s = Blocked d identity_next"
    and f: "pushed s = xs" "written s = xs" "taken s = xs"
    by (auto simp: waiting_def)
  have none: "flushCalls s = []" and wf: "\<not> writingFinished s"
    using inv op c by (simp_all add: invariant_def flushes_ok_def)
  define s1 where "s1 = flush s"
  have s1: "s1 = s\<lparr>inputs := (inputs s)\<lparr>closed := True,
                 iterDeferreds := (iterDeferreds (inputs s))(d \<mapsto> IterDone), blockedOn := None\<rparr>,
               flushCalls := [AwaitingWritingFinished]\<rparr>"
    using b none wf by (simp add: s1_def flush_handoff resume_flushes_def)
  define s2 where "s2 = tick ?T s1"
  have "consumer s1 = Blocked d identity_next" "iterDeferreds (inputs s1) d = Some IterDone"
    using c by (simp_all add: s1)
  then have s2: "s2 = s1\<lparr>consumer := Ready AtEnd, inputsDone := True\<rparr>"
    by (simp add: s2_def tick_resumed deliver_done)
  define s3 where "s3 = tick ?T s2"
  have s3: "s3 = s2\<lparr>consumer := Returned\<rparr>"
    by (simp add: s3_def s2 tick_return [where st = AtEnd])
  define s4 where "s4 = tick ?T s3"
  have s4: "s4 = s3\<lparr>writingFinished := True, consumer := Finished, flushCalls := [Flushed None]\<rparr>"
    by (simp add: s4_def s3 s2 s1 tick_finish resume_flushes_def)
  have run: "run ?T s [Flush, Tick, Tick, Tick] = s4"
    by (simp add: run_def s4_def s3_def s2_def s1_def)
  show ?thesis
    using f by (simp add: run s4 s3 s2 s1)
qed

lemma run_serve_Cons:
  "run T s (serve (x # xs)) = run T (run T s [Transform x, Tick, Tick, Tick, Tick]) (serve xs)"
  by (simp add: serve_def run_def)

lemma waiting_serve:
  assumes "waiting s ys"
  shows "pushed (run identityIter s (serve xs)) = ys @ xs
    \<and> written (run identityIter s (serve xs)) = ys @ xs
    \<and> flushCalls (run identityIter s (serve xs)) = [Flushed None]
    \<and> consumer (run identityIter s (serve xs)) = Finished"
  using assms
proof (induction xs arbitrary: s ys)
  case Nil
  then show ?case
    using waiting_flush [of s ys] by (simp add: serve_def)
next
  case (Cons x xs)
  have "waiting (run identityIter s [Transform x, Tick, Tick, Tick, Tick]) (ys @ [x])"
    using Cons.prems by (rule waiting_next)
  from Cons.IH [OF this] show ?case
    by (simp add: run_serve_Cons)
qed

lemma serve_completes:
  assumes "xs \<noteq> []"
  shows "pushed (run identityIter new_stream (serve xs)) = xs
    \<and> written (run identityIter new_stream (serve xs)) = xs
    \<and> flushCalls (run identityIter new_stream (serve xs)) = [Flushed None]
    \<and> consumer (run identityIter new_stream (serve xs)) = Finished"
proof -
  from assms obtain x xs' where xs: "xs = x # xs'"
    by (cases xs) auto
  have "waiting (run identityIter new_stream [Transform x, Tick, Tick, Tick, Tick]) [x]"
    by (rule waiting_first)
  from waiting_serve [OF this, of xs'] show ?thesis
    by (simp add: xs run_serve_Cons)
qed

subsection \<open>What a turn leaves alone\<close>

lemma deliver_fields [simp]:
  "consumer (deliver s k v) = Ready (k v)"
  "inputs (deliver s k v) = inputs s"
  "initialized (deliver s k v) = initialized s"
  "written (deliver s k v) = written s"
  "transformCalls (deliver s k v) = transformCalls s"
  by (cases v; simp add: deliver_def)+

lemma resume_flushes_calls [simp]: "transformCalls (resume_flushes s) = transformCalls s"
  by (simp add: resume_flushes_def)

lemma tick_cases:
  obtains (stays) "tick T s = s"
  | (moved) c where "tick T s = s\<lparr>consumer := c\<rparr>" "c \<noteq> Idle" "consumer s \<noteq> Idle"
  | (other) s' where "tick T s = s'" "consumer s \<noteq> Idle" "consumer s' \<noteq> Idle"
      "initialized s' = initialized s" "written s' = written s"
      "transformCalls s' = transformCalls s" "closed (inputs s') = closed (inputs s)"
proof (cases "consumer s")
  case Idle
  then show ?thesis using stays by (simp add: tick_stays)
next
  case (Ready st)
  show ?thesis
  proof (cases "resume T st")
    case (Pull k)
    show ?thesis
    proof (cases "inputsDone s")
      case True
      then show ?thesis
        using Ready Pull moved [of "Ready (k IterDone)"] by (simp add: tick_pull_after_done)
    next
      case False
      show ?thesis
      proof (cases "backlog (inputs s)")
        case Nil
        then show ?thesis
          using Ready Pull False other by (simp add: tick_pull_empty)
      next
        case (Cons entry rest)
        then obtain v d where "backlog (inputs s) = (v, d) # rest"
          by (cases entry) simp
        then show ?thesis
          using Ready Pull False other by (simp add: tick_pull_entry)
      qed
    qed
  next
    case (Yield out st')
    then show ?thesis
      using Ready other by (simp add: tick_yield)
  next
    case Return
    then show ?thesis
      using Ready moved [of Returned] by (simp add: tick_return)
  next
    case (Throw e)
    then show ?thesis
      using Ready moved [of "Threw e"] by (simp add: tick_throw)
  qed
next
  case (Blocked d k)
  show ?thesis
  proof (cases "iterDeferreds (inputs s) d")
    case None
    then show ?thesis using Blocked stays by (simp add: tick_stays)
  next
    case (Some v)
    then show ?thesis
      using Blocked other by (simp add: tick_resumed)
  qed
next
  case (Yielded out st)
  then show ?thesis using other by (simp add: tick_push)
next
  case Returned
  then show ?thesis using other by (simp add: tick_finish)
next
  case (Threw e)
  then show ?thesis using other by (simp add: tick_error)
next
  case Finished
  then show ?thesis using stays by (simp add: tick_stays)
next
  case Errored
  then show ?thesis using stays by (simp add: tick_stays)
qed

lemma tick_keeps:
  "initialized (tick T s) = initialized s"
  "written (tick T s) = written s"
  "transformCalls (tick T s) = transformCalls s"
  "closed (inputs (tick T s)) = closed (inputs s)"
  "consumer (tick T s) = Idle \<longleftrightarrow> consumer s = Idle"
  by (cases T s rule: tick_cases; simp)+

lemma initializeOnce_keeps:
  "initialized (initializeOnce T s)"
  "written (initializeOnce T s) = written s"
  "transformCalls (initializeOnce T s) = transformCalls s"
  "closed (inputs (initializeOnce T s)) = closed (inputs s)"
  by (simp_all add: initializeOnce_def tick_keeps)

lemma initializeOnce_started:
  "started_ok s \<Longrightarrow> started_ok (initializeOnce T s)"
  by (simp add: initializeOnce_def started_ok_def tick_keeps)

lemma closed_private_write [simp]: "closed (fst (private_write w v)) = closed w"
  by (simp add: private_write_def Let_def split: option.splits)

lemma transform_keeps:
  "initialized (transform T s x)"
  "closed (inputs (transform T s x)) = closed (inputs s)"
  "started_ok s \<Longrightarrow> started_ok (transform T s x)"
  "written (transform T s x) = written s @ (if closed (inputs s) then [] else [x])"
  "transformCalls (transform T s x)
     = transformCalls s @ [if closed (inputs s) then Rejected WroteToClosed else Resolved]"
  using initializeOnce_started [of s T]
  by (cases "closed (inputs s)";
      simp add: transform_closed transform_open initializeOnce_keeps started_ok_def)+

lemma flush_keeps:
  "initialized (flush s) = initialized s"
  "closed (inputs (flush s))"
  "started_ok s \<Longrightarrow> started_ok (flush s)"
  "written (flush s) = written s"
  "length (flushCalls (flush s)) = Suc (length (flushCalls s))"
  by (cases "blockedOn (inputs s)"; simp add: flush_queue flush_handoff started_ok_def)+

lemma started_new: "started_ok new_stream"
  by (simp add: started_ok_def new_stream_def)

lemma started_tick: "started_ok s \<Longrightarrow> started_ok (tick T s)"
  by (simp add: started_ok_def tick_keeps)

lemma started_step: "started_ok s \<Longrightarrow> started_ok (step T s e)"
  by (cases e) (simp_all add: transform_keeps flush_keeps started_tick)

lemma started_run: "started_ok s \<Longrightarrow> started_ok (run T s es)"
  by (induction es arbitrary: s) (simp_all add: run_def started_step)

lemma run_Cons: "run T s (e # es) = run T (step T s e) es"
  by (simp add: run_def)

lemma written_run:
  "written (run T s es) = written s @ (if closed (inputs s) then [] else accepted es)"
proof (induction es arbitrary: s)
  case Nil
  then show ?case by (simp add: run_def)
next
  case (Cons e es)
  show ?case
    by (cases e) (simp_all add: run_Cons Cons.IH transform_keeps flush_keeps tick_keeps)
qed

lemma closed_run:
  "closed (inputs (run T s es)) \<longleftrightarrow> closed (inputs s) \<or> Flush \<in> set es"
proof (induction es arbitrary: s)
  case Nil
  then show ?case by (simp add: run_def)
next
  case (Cons e es)
  show ?case
    by (cases e) (auto simp: run_Cons Cons.IH transform_keeps flush_keeps tick_keeps)
qed

lemma initialized_run:
  "initialized (run T s es) \<longleftrightarrow> initialized s \<or> (\<exists>x. Transform x \<in> set es)"
proof (induction es arbitrary: s)
  case Nil
  then show ?case by (simp add: run_def)
next
  case (Cons e es)
  show ?case
    by (cases e) (auto simp: run_Cons Cons.IH transform_keeps flush_keeps tick_keeps)
qed

lemma accepted_turns [simp]: "accepted (es @ replicate k Tick) = accepted es"
proof (induction es rule: accepted.induct)
  case 1
  then show ?case by (induction k) simp_all
qed simp_all

subsection \<open>The identity stage comes to rest\<close>

lemma turns_decrease:
  assumes "ids_ok (inputs s)" "\<not> resting s"
  shows "turns_left (tick identityIter s) < turns_left s"
proof (cases "consumer s")
  case Idle
  then show ?thesis using assms(2) by (simp add: resting_def)
next
  case (Ready st)
  show ?thesis
  proof (cases st)
    case AtLoop
    show ?thesis
    proof (cases "inputsDone s")
      case True
      then show ?thesis
        using Ready AtLoop
        by (simp add: tick_pull_after_done [where k = identity_next] turns_left_def)
    next
      case False
      show ?thesis
      proof (cases "backlog (inputs s)")
        case Nil
        moreover have "iterDeferreds (inputs s) (nextDeferred (inputs s)) = None"
          using assms(1) by (simp add: ids_ok_def)
        ultimately show ?thesis
          using Ready AtLoop False
          by (simp add: tick_pull_empty [where k = identity_next] turns_left_def)
      next
        case (Cons entry rest)
        then obtain v d where "backlog (inputs s) = (v, d) # rest"
          by (cases entry) simp
        then show ?thesis
          using Ready AtLoop False
          by (cases v) (simp_all add: tick_pull_entry [where k = identity_next] turns_left_def)
      qed
    qed
  next
    case (Have x)
    then show ?thesis
      using Ready by (simp add: tick_yield [where out = x and st' = AtLoop] turns_left_def)
  next
    case AtEnd
    then show ?thesis
      using Ready by (simp add: tick_return turns_left_def)
  qed
next
  case (Blocked d k)
  show ?thesis
  proof (cases "iterDeferreds (inputs s) d")
    case None
    then show ?thesis using Blocked assms(2) by (simp add: resting_def)
  next
    case (Some v)
    then show ?thesis
      using Blocked by (simp add: tick_resumed turns_left_def)
  qed
next
  case (Yielded out st)
  then show ?thesis by (simp add: tick_push turns_left_def)
next
  case Returned
  then show ?thesis by (simp add: tick_finish turns_left_def)
next
  case (Threw e)
  then show ?thesis by (simp add: tick_error turns_left_def)
next
  case Finished
  then show ?thesis using assms(2) by (simp add: resting_def)
next
  case Errored
  then show ?thesis using assms(2) by (simp add: resting_def)
qed

lemma resting_stays: "resting s \<Longrightarrow> run T s (replicate k Tick) = s"
proof (induction k)
  case 0
  then show ?case by (simp add: run_def)
next
  case (Suc k)
  from Suc.prems have "tick T s = s"
    unfolding resting_def by (rule tick_stays)
  then show ?case
    using Suc by (simp add: run_Cons)
qed

lemma rest_after_turns:
  assumes "invariant s" "turns_left s \<le> k"
  shows "resting (run identityIter s (replicate k Tick))"
  using assms
proof (induction k arbitrary: s)
  case 0
  show ?case
  proof (rule ccontr)
    assume "\<not> resting (run identityIter s (replicate 0 Tick))"
    then have "\<not> resting s" by (simp add: run_def)
    with "0.prems" show False
      using turns_decrease [of s] by (simp add: invariant_def)
  qed
next
  case (Suc k)
  show ?case
  proof (cases "resting s")
    case True
    then show ?thesis
      using resting_stays [of s identityIter "Suc k"] by simp
  next
    case False
    then have "turns_left (tick identityIter s) < turns_left s"
      using Suc.prems(1) by (simp add: turns_decrease invariant_def)
    then have "turns_left (tick identityIter s) \<le> k"
      using Suc.prems(2) by simp
    moreover have "invariant (tick identityIter s)"
      using Suc.prems(1) by (rule invariant_tick)
    ultimately have "resting (run identityIter (tick identityIter s) (replicate k Tick))"
      by (rule Suc.IH [rotated])
    then show ?thesis by (simp add: run_Cons)
  qed
qed

lemma closed_rest_is_finished:
  assumes inv: "invariant s" and idt: "identity_inv s" and st: "started_ok s"
    and rest: "resting s" and ini: "initialized s" and cl: "closed (inputs s)"
  shows "consumer s = Finished"
proof -
  have "consumer s \<noteq> Idle"
    using st ini by (simp add: started_ok_def)
  moreover have "consumer s \<noteq> Errored"
    using idt by (auto simp: identity_inv_def)
  moreover have False if b: "consumer s = Blocked d k" and n: "iterDeferreds (inputs s) d = None" for d k
  proof -
    have lnk: "linked s" and ids: "ids_ok (inputs s)" and fl: "flushes_ok s" and con: "conserved s"
      using inv by (simp_all add: invariant_def)
    from lnk have "\<forall>d k. consumer s = Blocked d k \<longrightarrow>
        d < nextDeferred (inputs s) \<and> \<not> inputsDone s
        \<and> (iterDeferreds (inputs s) d = None \<longrightarrow> blockedOn (inputs s) = Some d)"
      unfolding linked_def by blast
    with b n have "blockedOn (inputs s) = Some d" "\<not> inputsDone s"
      by blast+
    then have "backlog (inputs s) = []"
      using ids by (simp add: ids_ok_def)
    moreover have "inflight s = []"
      using b n by (simp add: inflight_def)
    moreover have "flushCalls s \<noteq> []"
      using fl cl by (simp add: flushes_ok_def)
    ultimately have eq: "map IterValue (written s) @ replicate (length (flushCalls s)) IterDone
        = map IterValue (taken s)" and some: "0 < length (flushCalls s)"
      using con \<open>\<not> inputsDone s\<close> by (simp_all add: conserved_def)
    from some have "IterDone \<in> set (map IterValue (written s)
        @ replicate (length (flushCalls s)) IterDone)"
      by simp
    then have "IterDone \<in> set (map IterValue (taken s))"
      unfolding eq .
    then show False by auto
  qed
  ultimately show ?thesis
    using rest by (auto simp: resting_def)
qed

lemma run_append: "run T s (es @ es') = run T (run T s es) es'"
  by (simp add: run_def)

lemma identity_delivers_all:
  assumes "Transform x \<in> set es" "Flush \<in> set es"
    and "turns_left (run identityIter new_stream es) \<le> k"
  shows "consumer (run identityIter new_stream (es @ replicate k Tick)) = Finished
    \<and> pushed (run identityIter new_stream (es @ replicate k Tick)) = accepted es"
proof -
  let ?s = "run identityIter new_stream es"
  let ?t = "run identityIter new_stream (es @ replicate k Tick)"
  have inv: "invariant ?s"
    by (simp add: invariant_run invariant_new)
  have invt: "invariant ?t" and idt: "identity_inv ?t" and st: "started_ok ?t"
    by (simp_all add: invariant_run invariant_new identity_inv_run identity_inv_new
        started_run started_new)
  have rest: "resting ?t"
    using rest_after_turns [OF inv assms(3)] by (simp add: run_append)
  have "initialized ?t" "closed (inputs ?t)"
    using assms(1,2) by (auto simp: initialized_run closed_run)
  with invt idt st rest have fin: "consumer ?t = Finished"
    by (intro closed_rest_is_finished)
  then have "taken ?t = pushed ?t" "inputsDone ?t"
    using identity_finished [OF idt] by simp_all
  moreover have "taken ?t = written ?t"
    using invt \<open>inputsDone ?t\<close> by (simp add: done_after_all_taken invariant_def)
  moreover have "written ?t = accepted es"
    by (simp add: written_run new_stream_def new_iterable_def)
  ultimately show ?thesis
    using fin by simp
qed

subsection \<open>How many turns are enough\<close>

lemma inputs_tick:
  "inputs (tick T s) = inputs s \<or> inputs (tick T s) = fst (pull (inputs s))"
  by (simp add: tick_def deliver_def
      split: consumer.splits action.splits option.splits iter_result.splits prod.splits
        pulled.splits)

lemma backlog_pull: "length (backlog (fst (pull w))) \<le> length (backlog w)"
  by (cases "backlog w") (auto simp: pull_def Let_def)

lemma backlog_tick: "length (backlog (inputs (tick T s))) \<le> length (backlog (inputs s))"
  using inputs_tick [of T s] backlog_pull [of "inputs s"] by auto

lemma backlog_private_write:
  "length (backlog (fst (private_write w v))) \<le> Suc (length (backlog w))"
  by (simp add: private_write_def Let_def split: option.splits)

lemma backlog_initializeOnce:
  "length (backlog (inputs (initializeOnce T s))) \<le> length (backlog (inputs s))"
  using backlog_tick [of T "s\<lparr>initialized := True, consumer := Ready (start T)\<rparr>"]
  by (simp add: initializeOnce_def)

lemma backlog_transform:
  "length (backlog (inputs (transform T s x))) \<le> Suc (length (backlog (inputs s)))"
proof (cases "closed (inputs (initializeOnce T s))")
  case True
  then show ?thesis
    using backlog_initializeOnce [of T s] by (simp add: transform_closed)
next
  case False
  then show ?thesis
    using backlog_initializeOnce [of T s]
      backlog_private_write [of "inputs (initializeOnce T s)" "IterValue x"]
    by (simp add: transform_open)
qed

lemma backlog_flush:
  "length (backlog (inputs (flush s))) \<le> Suc (length (backlog (inputs s)))"
  by (cases "blockedOn (inputs s)") (simp_all add: flush_queue flush_handoff)

lemma backlog_run:
  "length (backlog (inputs (run T s es))) \<le> length (backlog (inputs s)) + length es"
proof (induction es arbitrary: s)
  case Nil
  then show ?case by (simp add: run_def)
next
  case (Cons e es)
  have "length (backlog (inputs (step T s e))) \<le> Suc (length (backlog (inputs s)))"
    using backlog_transform [of T s] backlog_flush [of s] backlog_tick [of T s]
    by (cases e) (simp_all add: le_Suc_eq)
  then show ?case
    using Cons.IH [of "step T s e"] by (simp add: run_Cons)
qed

lemma identity_turns_le: "identity_turns st \<le> 5"
  by (cases st) simp_all

lemma consumer_turns_le: "consumer_turns ds c \<le> 6"
proof (cases c)
  case (Ready st)
  then show ?thesis using identity_turns_le [of st] by simp
next
  case (Blocked d k)
  show ?thesis
  proof (cases "ds d")
    case None
    then show ?thesis using Blocked by simp
  next
    case (Some v)
    then show ?thesis using Blocked identity_turns_le [of "k v"] by simp
  qed
next
  case (Yielded out st)
  then show ?thesis using identity_turns_le [of st] by simp
qed simp_all

lemma turns_left_run: "turns_left (run identityIter new_stream es) \<le> 3 * length es + 6"
proof -
  have "length (backlog (inputs (run identityIter new_stream es))) \<le> length es"
    using backlog_run [of identityIter new_stream es]
    by (simp add: new_stream_def new_iterable_def)
  then show ?thesis
    using consumer_turns_le
      [of "iterDeferreds (inputs (run identityIter new_stream es))"
        "consumer (run identityIter new_stream es)"]
    by (simp add: turns_left_def)
qed


subsection \<open>A stream that is flushed before any input\<close>

lemma unstarted_new: "unstarted new_stream 0"
  by (simp add: unstarted_def new_stream_def new_iterable_def)

lemma unstarted_tick: "unstarted s n \<Longrightarrow> unstarted (tick T s) n"
  by (simp add: unstarted_def tick_def)

lemma unstarted_flush: "unstarted s n \<Longrightarrow> unstarted (flush s) (Suc n)"
  by (simp add: unstarted_def flush_def close_def private_write_def resume_flushes_def Let_def)

lemma unstarted_run:
  "\<forall>x. Transform x \<notin> set es \<Longrightarrow> unstarted (run T new_stream es) (count_list es Flush)"
proof (induction es rule: rev_induct)
  case Nil
  then show ?case by (simp add: run_Nil unstarted_new)
next
  case (snoc e es)
  then have IH: "unstarted (run T new_stream es) (count_list es Flush)" by simp
  show ?case
  proof (cases e)
    case (Transform x)
    with snoc.prems show ?thesis by force
  next
    case Flush
    with IH show ?thesis by (simp add: run_snoc unstarted_flush)
  next
    case Tick
    with IH show ?thesis by (simp add: run_snoc unstarted_tick)
  qed
qed

subsection \<open>The claims about the stream adapter\<close>

text \<open>
  The promise of \<open>_write\<close> does wait: in every run, the deferred of an entry that is
  still in the backlog is unresolved.\<close>

lemma queued_deferred_unresolved:
  assumes "(v, d) \<in> set (backlog (inputs (run T new_stream es)))"
  shows "d \<notin> voidDeferreds (inputs (run T new_stream es))"
proof -
  have "ids_ok (inputs (run T new_stream es))"
    using invariant_run [OF invariant_new, of T es] by (simp add: invariant_def)
  then show ?thesis
    using assms by (force simp: ids_ok_def)
qed

text \<open>
  Claim C1, at the inputs where the code departs from it. The claim: a write that finds
  the consumer not waiting queues its item, and its promise stays unresolved until the
  consumer pulls exactly that item. On a new iterable nobody is waiting: \<open>write\<close>
  queues the item with its deferred, that deferred is unresolved and \<open>_write\<close> waits
  for it, yet the promise \<open>write\<close> returns is resolved while the item is still in the
  backlog. In a stream: the first \<open>_transform\<close> hands its item to the waiting
  coroutine, which takes it; the second comes before the coroutine is back at its
  \<open>await\<close>, so its item is queued and not taken, and its callback is chained to a
  resolved promise all the same.\<close>

theorem write_resolved_while_queued:
  "snd (write new_iterable a) = Resolved
   \<and> backlog (fst (write new_iterable a)) = [(IterValue a, 0)]
   \<and> 0 \<notin> voidDeferreds (fst (write new_iterable a))
   \<and> snd (private_write new_iterable (IterValue a)) = WaitsOn 0
   \<and> \<not> settled (fst (write new_iterable a)) (snd (private_write new_iterable (IterValue a)))
   \<and> transformCalls (run identityIter new_stream [Transform a, Tick, Transform b]) = [Resolved, Resolved]
   \<and> backlog (inputs (run identityIter new_stream [Transform a, Tick, Transform b])) = [(IterValue b, 1)]
   \<and> 1 \<notin> voidDeferreds (inputs (run identityIter new_stream [Transform a, Tick, Transform b]))
   \<and> taken (run identityIter new_stream [Transform a, Tick, Transform b]) = [a]"
  by (simp add: write_def private_write_def new_iterable_def run_def transform_def
      initializeOnce_def tick_def pull_def deliver_def new_stream_def Let_def)

text \<open>
  Claim C2. With the identity stage, after every run: what has been written is the items
  of the \<open>_transform\<close> calls before the first \<open>_flush\<close>; what has been pushed is an
  initial part of it, in the same order; once the stage has been given the done marker
  the inputs are closed and every written item has been taken before it; and once the
  loop has finished the pushed sequence is the written sequence. And the loop does
  finish: take any run with a \<open>_transform\<close> and a \<open>_flush\<close> in it, the calls and the
  turns of the coroutine in any order, and let the coroutine take three turns for every
  event of the run and six more: then exactly the accepted items have been pushed, in
  their order. In particular a sequence of one or more items served input by input and
  then flushed ends with that sequence pushed and the flush completed. (Of an empty
  sequence nothing is pushed either; its flush is the subject of C9.)\<close>

theorem identity_preserves_order:
  "(\<exists>r. written (run identityIter new_stream es) = pushed (run identityIter new_stream es) @ r)
   \<and> written (run identityIter new_stream es) = accepted es
   \<and> (inputsDone (run identityIter new_stream es) \<longrightarrow>
        closed (inputs (run identityIter new_stream es))
        \<and> taken (run identityIter new_stream es) = written (run identityIter new_stream es))
   \<and> (consumer (run identityIter new_stream es) = Finished \<longrightarrow>
        pushed (run identityIter new_stream es) = written (run identityIter new_stream es))
   \<and> (Transform x \<in> set es \<and> Flush \<in> set es \<and> 3 * length es + 6 \<le> k \<longrightarrow>
        pushed (run identityIter new_stream (es @ replicate k Tick)) = accepted es
        \<and> consumer (run identityIter new_stream (es @ replicate k Tick)) = Finished)
   \<and> (xs \<noteq> [] \<longrightarrow>
        pushed (run identityIter new_stream (serve xs)) = xs
        \<and> written (run identityIter new_stream (serve xs)) = xs
        \<and> flushCalls (run identityIter new_stream (serve xs)) = [Flushed None]
        \<and> consumer (run identityIter new_stream (serve xs)) = Finished)"
proof -
  let ?s = "run identityIter new_stream es"
  have inv: "invariant ?s"
    by (simp add: invariant_run invariant_new)
  then have con: "conserved ?s" and fl: "flushes_ok ?s"
    by (simp_all add: invariant_def)
  have idt: "identity_inv ?s"
    by (simp add: identity_inv_run identity_inv_new invariant_new)
  obtain r1 where r1: "written ?s = taken ?s @ r1"
    using taken_prefix_written [OF con] by blast
  obtain r2 where r2: "taken ?s = pushed ?s @ r2"
    using identity_pushed_prefix [OF idt] by blast
  have a: "\<exists>r. written ?s = pushed ?s @ r"
    using r1 r2 by simp
  have w: "written ?s = accepted es"
    by (simp add: written_run new_stream_def new_iterable_def)
  have b: "closed (inputs ?s) \<and> taken ?s = written ?s" if "inputsDone ?s"
    using done_after_all_taken [OF con that] fl by (simp add: flushes_ok_def)
  have c: "pushed ?s = written ?s" if "consumer ?s = Finished"
    using identity_finished [OF idt that] b by simp
  have d: "pushed (run identityIter new_stream (es @ replicate k Tick)) = accepted es
        \<and> consumer (run identityIter new_stream (es @ replicate k Tick)) = Finished"
    if "Transform x \<in> set es" "Flush \<in> set es" "3 * length es + 6 \<le> k"
  proof -
    have "turns_left ?s \<le> k"
      using turns_left_run [of es] that(3) by simp
    then show ?thesis
      using identity_delivers_all [OF that(1,2)] by simp
  qed
  show ?thesis
    using a w b c d serve_completes [of xs] by blast
qed

theorem identity_preserves_order_witness:
  "pushed (run identityIter new_stream
      ([Transform 1, Transform 2, Transform (3::nat), Flush] @ replicate 18 Tick)) = [1, 2, 3]
   \<and> consumer (run identityIter new_stream
      ([Transform 1, Transform 2, Transform (3::nat), Flush] @ replicate 18 Tick)) = Finished
   \<and> inputsDone (run identityIter new_stream (serve [1::nat, 2]))
   \<and> closed (inputs (run identityIter new_stream (serve [1::nat, 2])))
   \<and> consumer (run identityIter new_stream (serve [1::nat, 2])) = Finished
   \<and> taken (run identityIter new_stream (serve [1::nat, 2])) = [1, 2]
   \<and> pushed (run identityIter new_stream (serve [1::nat, 2])) = [1, 2]
   \<and> written (run identityIter new_stream (serve [1::nat, 2])) = [1, 2]
   \<and> flushCalls (run identityIter new_stream (serve [1::nat, 2])) = [Flushed None]"
proof -
  have "Flushed None \<in> set (flushCalls (run identityIter new_stream (serve [1::nat, 2])))"
    using serve_completes [of "[1::nat, 2]"] by simp
  then have "inputsDone (run identityIter new_stream (serve [1::nat, 2]))"
    using flushed_after_all by blast
  then show ?thesis
    using identity_preserves_order [of "serve [1::nat, 2]" 1 18 "[1::nat, 2]"]
      identity_preserves_order [of "[Transform 1, Transform 2, Transform (3::nat), Flush]" 1 18 "[]"]
    by (simp add: serve_def)
qed

text \<open>
  Claim C3. A call of \<open>_flush\<close> reaches its \<open>callback\<close> only in a state where the
  inputs are closed, the done marker has been delivered to the stage (and every item
  written before it taken), the stage has returned and \<open>_writingFinished\<close> is
  resolved, and every output the stage yielded has been pushed; and the callback gets no
  error. This holds for every stage and after every run, so no run signals completion
  earlier.\<close>

theorem flush_completes_last:
  assumes "Flushed r \<in> set (flushCalls (run T new_stream es))"
  shows "r = None
    \<and> closed (inputs (run T new_stream es))
    \<and> inputsDone (run T new_stream es)
    \<and> taken (run T new_stream es) = written (run T new_stream es)
    \<and> consumer (run T new_stream es) = Finished
    \<and> pushed (run T new_stream es) = yielded (run T new_stream es)"
  using assms by (rule flushed_after_all)

theorem flush_completes_last_witness:
  "Flushed None \<in> set (flushCalls (run identityIter new_stream (serve [7::nat])))
   \<and> closed (inputs (run identityIter new_stream (serve [7::nat])))
   \<and> inputsDone (run identityIter new_stream (serve [7::nat]))
   \<and> consumer (run identityIter new_stream (serve [7::nat])) = Finished
   \<and> pushed (run identityIter new_stream (serve [7::nat])) = [7]
   \<and> yielded (run identityIter new_stream (serve [7::nat])) = [7]"
proof -
  have h: "Flushed None \<in> set (flushCalls (run identityIter new_stream (serve [7::nat])))"
    and p: "pushed (run identityIter new_stream (serve [7::nat])) = [7]"
    using serve_completes [of "[7::nat]"] by simp_all
  from flush_completes_last [OF h] h p show ?thesis by simp
qed




text \<open>
  Claim C9. In a run without any \<open>_transform\<close> the coroutine is never started: every
  \<open>_flush\<close> queues its done marker and stays at \<open>await this._inputs.close()\<close>, the
  markers stay in the backlog, and no callback of \<open>_flush\<close> is called, however many
  turns the scheduler gives.\<close>

theorem flush_without_input_never_completes:
  assumes "\<forall>x. Transform x \<notin> set es"
  shows "consumer (run T new_stream es) = Idle
     \<and> backlog (inputs (run T new_stream es)) = map (\<lambda>d. (IterDone, d)) [0..<count_list es Flush]
     \<and> flushCalls (run T new_stream es) = map AwaitingClose [0..<count_list es Flush]
     \<and> (\<forall>r. Flushed r \<notin> set (flushCalls (run T new_stream es)))"
proof -
  have u: "unstarted (run T new_stream es) (count_list es Flush)"
    using assms by (rule unstarted_run)
  then have "flushCalls (run T new_stream es) = map AwaitingClose [0..<count_list es Flush]"
    by (simp add: unstarted_def)
  then have "\<forall>r. Flushed r \<notin> set (flushCalls (run T new_stream es))"
    by auto
  with u show ?thesis by (simp add: unstarted_def)
qed

theorem flush_without_input_never_completes_witness:
  "consumer (run identityIter new_stream [Flush, Tick, Tick :: nat event]) = Idle
   \<and> backlog (inputs (run identityIter new_stream [Flush, Tick, Tick :: nat event])) = [(IterDone, 0)]
   \<and> flushCalls (run identityIter new_stream [Flush, Tick, Tick :: nat event]) = [AwaitingClose 0]
   \<and> Flushed None \<notin> set (flushCalls (run identityIter new_stream [Flush, Tick, Tick :: nat event]))"
  using flush_without_input_never_completes [of "[Flush, Tick, Tick :: nat event]" identityIter]
  by simp
section \<open>Properties of the build\<close>

subsection \<open>Promises that are up to date\<close>

lemma more_refl [simp]: "more p p"
  by (simp add: more_def)

lemma more_settle_with [simp]: "more p (settle_with p outcome)"
  by (cases p) (simp_all add: more_def settle_with_def)

lemma all_ok_promise_all: "all_pre ps cur \<Longrightarrow> all_ok ps (promise_all ps cur)"
  by (cases cur; cases "rejections ps") (simp_all add: all_pre_def all_ok_def promise_all_def)

lemma more_promise_all [simp]: "more cur (promise_all ps cur)"
  by (cases cur) (simp_all add: more_def promise_all_def)

lemma all_pre_pair:
  assumes "all_ok [p, q] cur" "more p p'" "more q q'"
  shows "all_pre [p', q'] cur"
proof (cases cur)
  case Pending
  then show ?thesis by (simp add: all_pre_def)
next
  case (Fulfilled vs)
  with assms(1) have "succeeded p" "succeeded q" "vs = fulfilments [p, q]"
    by (simp_all add: all_ok_def)
  moreover from this assms(2,3) have "p' = p" "q' = q"
    by (auto simp: more_def)
  ultimately show ?thesis
    using Fulfilled by (simp add: all_pre_def)
next
  case (RejectedWith e)
  with assms(1) have "p = RejectedWith e \<or> q = RejectedWith e"
    by (cases p; cases q) (auto simp: all_ok_def)
  then have "p' = RejectedWith e \<or> q' = RejectedWith e"
    using assms(2,3) by (auto simp: more_def)
  then show ?thesis
    using RejectedWith by (cases p'; cases q') (auto simp: all_pre_def)
qed

lemma fulfilled_pair:
  assumes "all_ok [p, q] (Fulfilled vs)"
  obtains a b where "p = Fulfilled a" "q = Fulfilled b" "vs = [a, b]"
  using assms by (cases p; cases q) (simp_all add: all_ok_def)

lemma branch_react:
  fixes name :: branch
  assumes ok: "branch_ok cfg b0" and cfg: "more cfg cfg'" and adv: "branch_advanced b0 b1"
  defines "r \<equiv> react_branch cfg' name b1"
  shows "branch_ok cfg' (fst r) \<and> more (postProcessing b0) (postProcessing (fst r)) \<and>
      list_all (\<lambda>c. cfg' = Fulfilled (swConfig c)) (snd r) \<and>
      length (snd r) + (if worker b0 = None then 0 else 1) = (if worker (fst r) = None then 0 else 1) \<and>
      calls_due cfg' name (fst r) = calls_due cfg name b0 \<union> set (snd r)"
proof -
  define both where "both = promise_all [cfg', stream b1] (configAndStream b1)"
  have same: "configAndStream b1 = configAndStream b0" and str: "more (stream b0) (stream b1)"
    using adv by (simp_all add: branch_advanced_def)
  have "all_pre [cfg', stream b1] (configAndStream b1)"
    using ok cfg str unfolding same branch_ok_def by (blast intro: all_pre_pair)
  then have up: "all_ok [cfg', stream b1] both"
    unfolding both_def by (rule all_ok_promise_all)
  have mono: "more (configAndStream b0) both"
    unfolding both_def same [symmetric] by simp
  show ?thesis
  proof (cases "worker b0")
    case None
    then have w1: "worker b1 = None" and nf: "\<not> succeeded (configAndStream b0)"
      using adv ok by (simp_all add: branch_advanced_def branch_ok_def)
    have pp0: "postProcessing b0 = Pending
      \<or> (\<exists>e. both = RejectedWith e \<and> postProcessing b0 = RejectedWith e)"
      using nf mono None
      by (cases "configAndStream b0") (simp_all add: postProcessing_def then_promise_def more_def)
    show ?thesis
    proof (cases both)
      case Pending
      then have r: "r = (b1\<lparr>configAndStream := Pending\<rparr>, [])"
        using w1 by (simp add: r_def react_branch_def both_def [symmetric])
      show ?thesis
        using up Pending w1 None pp0
        by (auto simp: r branch_ok_def postProcessing_def then_promise_def more_def calls_due_def
            call_for_def split: settle.splits)
    next
      case (Fulfilled vs)
      then have r: "r = (b1\<lparr>configAndStream := Fulfilled vs, worker := Some Pending\<rparr>,
          [call_for name (hd vs)])"
        using w1 by (simp add: r_def react_branch_def both_def [symmetric])
      from up Fulfilled obtain a b where "cfg' = Fulfilled a" "vs = [a, b]"
        by (auto elim: fulfilled_pair)
      moreover have "postProcessing b0 = Pending"
        using pp0 Fulfilled by simp
      ultimately show ?thesis
        using up Fulfilled None
        by (auto simp: r branch_ok_def postProcessing_def then_promise_def more_def calls_due_def
            call_for_def split: settle.splits)
    next
      case (RejectedWith e)
      then have r: "r = (b1\<lparr>configAndStream := RejectedWith e\<rparr>, [])"
        using w1 by (simp add: r_def react_branch_def both_def [symmetric])
      show ?thesis
        using up RejectedWith w1 None pp0
        by (auto simp: r branch_ok_def postProcessing_def then_promise_def more_def calls_due_def
            call_for_def split: settle.splits)
    qed
  next
    case (Some p)
    then obtain p' where w1: "worker b1 = Some p'" and pm: "more p p'"
      using adv by (auto simp: branch_advanced_def)
    from Some ok obtain vs where f: "configAndStream b0 = Fulfilled vs"
      by (cases "configAndStream b0") (simp_all add: branch_ok_def)
    then have both: "both = Fulfilled vs"
      using mono by (simp add: more_def)
    then have r: "r = (b1\<lparr>configAndStream := Fulfilled vs\<rparr>, [])"
      using w1 by (simp add: r_def react_branch_def both_def [symmetric])
    from ok f obtain a0 c0 where old: "cfg = Fulfilled a0" "vs = [a0, c0]"
      by (auto simp: branch_ok_def elim: fulfilled_pair)
    then have cfg': "cfg' = Fulfilled a0"
      using cfg by (simp add: more_def)
    show ?thesis
      using up both w1 Some f pm old cfg'
      by (auto simp: r branch_ok_def postProcessing_def then_promise_def more_def calls_due_def)
  qed
qed

lemma build_ok_react:
  assumes ok: "build_ok s0" and adv: "advanced s0 s1"
  shows "build_ok (react s1) \<and> more (completion s0) (completion (react s1))
    \<and> configLoads (react s1) = configLoads s0"
proof -
  let ?cfg = "loadSWConfig s1"
  define ru where "ru = react_branch ?cfg Unbundled (unbundled s1)"
  define rb where "rb = react_branch ?cfg Bundled (bundled s1)"
  have cfg: "more (loadSWConfig s0) ?cfg"
    using adv by (simp add: advanced_def)
  have u: "branch_ok ?cfg (fst ru) \<and> more (postProcessing (unbundled s0)) (postProcessing (fst ru)) \<and>
      list_all (\<lambda>c. ?cfg = Fulfilled (swConfig c)) (snd ru) \<and>
      length (snd ru) + (if worker (unbundled s0) = None then 0 else 1)
        = (if worker (fst ru) = None then 0 else 1) \<and>
      calls_due ?cfg Unbundled (fst ru)
        = calls_due (loadSWConfig s0) Unbundled (unbundled s0) \<union> set (snd ru)"
    unfolding ru_def using ok cfg adv
    by (intro branch_react) (simp_all add: build_ok_def advanced_def)
  have b: "branch_ok ?cfg (fst rb) \<and> more (postProcessing (bundled s0)) (postProcessing (fst rb)) \<and>
      list_all (\<lambda>c. ?cfg = Fulfilled (swConfig c)) (snd rb) \<and>
      length (snd rb) + (if worker (bundled s0) = None then 0 else 1)
        = (if worker (fst rb) = None then 0 else 1) \<and>
      calls_due ?cfg Bundled (fst rb)
        = calls_due (loadSWConfig s0) Bundled (bundled s0) \<union> set (snd rb)"
    unfolding rb_def using ok cfg adv
    by (intro branch_react) (simp_all add: build_ok_def advanced_def)
  have r: "react s1 = s1\<lparr>unbundled := fst ru, bundled := fst rb,
      workerCalls := workerCalls s1 @ snd ru @ snd rb,
      completion := promise_all [postProcessing (fst ru), postProcessing (fst rb)] (completion s1)\<rparr>"
    by (simp add: react_def ru_def rb_def split: prod.splits)
  have same: "completion s1 = completion s0" "workerCalls s1 = workerCalls s0"
    "configLoads s1 = configLoads s0"
    using adv by (simp_all add: advanced_def)
  have "all_pre [postProcessing (fst ru), postProcessing (fst rb)] (completion s0)"
    using ok u b by (intro all_pre_pair [where p = "postProcessing (unbundled s0)"
          and q = "postProcessing (bundled s0)"]) (simp_all add: build_ok_def)
  then have c: "all_ok [postProcessing (fst ru), postProcessing (fst rb)]
      (promise_all [postProcessing (fst ru), postProcessing (fst rb)] (completion s0))"
    by (rule all_ok_promise_all)
  have old: "list_all (\<lambda>c. ?cfg = Fulfilled (swConfig c)) (workerCalls s0)"
  proof (cases "workerCalls s0")
    case Nil
    then show ?thesis by simp
  next
    case (Cons c cs)
    then have "loadSWConfig s0 = Fulfilled (swConfig c)"
      using ok by (simp add: build_ok_def)
    then have "?cfg = loadSWConfig s0"
      using cfg by (simp add: more_def)
    then show ?thesis
      using ok by (simp add: build_ok_def)
  qed
  have len: "length (workerCalls s0) =
      (if worker (unbundled s0) = None then 0 else 1) + (if worker (bundled s0) = None then 0 else 1)"
    using ok by (simp add: build_ok_def)
  have due: "set (workerCalls s0) = calls_due (loadSWConfig s0) Unbundled (unbundled s0)
      \<union> calls_due (loadSWConfig s0) Bundled (bundled s0)"
    using ok by (simp add: build_ok_def)
  have "set (workerCalls s0 @ snd ru @ snd rb)
      = calls_due ?cfg Unbundled (fst ru) \<union> calls_due ?cfg Bundled (fst rb)"
    using u b due by auto
  then have "build_ok (react s1)"
    unfolding build_ok_def r using u b c old len by (simp add: same)
  then show ?thesis
    by (simp add: r same)
qed

subsection \<open>Every settlement keeps the build up to date\<close>

lemma branch_advanced_refl [simp]: "branch_advanced b b"
  by (cases "worker b") (simp_all add: branch_advanced_def)

lemma branch_advanced_stream [simp]:
  "branch_advanced b (b\<lparr>stream := settle_with (stream b) outcome\<rparr>)"
  by (cases "worker b") (simp_all add: branch_advanced_def)

lemma branch_advanced_worker [simp]: "branch_advanced b (settle_worker outcome b)"
  by (cases "worker b") (simp_all add: branch_advanced_def settle_worker_def)

lemma advanced_config [simp]:
  "advanced s (s\<lparr>loadSWConfig := settle_with (loadSWConfig s) outcome\<rparr>)"
  by (simp add: advanced_def)

lemma advanced_stream [simp]: "advanced s (settle_stream name outcome s)"
  by (cases name) (simp_all add: advanced_def)

lemma advanced_worker [simp]: "advanced s (settle_worker_of name outcome s)"
  by (cases name) (simp_all add: advanced_def)

lemma build_step_react:
  "(\<exists>s1. advanced s s1 \<and> build_step s ev = react s1) \<or> build_step s ev = s"
  by (cases ev) (auto intro: advanced_config advanced_stream advanced_worker)

lemma build_ok_step:
  assumes "build_ok s"
  shows "build_ok (build_step s ev) \<and> more (completion s) (completion (build_step s ev))
    \<and> configLoads (build_step s ev) = configLoads s"
proof (cases "build_step s ev = s")
  case True
  then show ?thesis using assms by simp
next
  case False
  then obtain s1 where "advanced s s1" "build_step s ev = react s1"
    using build_step_react [of s ev] by blast
  then show ?thesis
    using build_ok_react [OF assms, of s1] by simp
qed

lemma build_run_snoc: "build_run s (es @ [ev]) = build_step (build_run s es) ev"
  by (simp add: build_run_def)

lemma build_ok_run:
  assumes "build_ok s"
  shows "build_ok (build_run s es) \<and> configLoads (build_run s es) = configLoads s"
proof (induction es rule: rev_induct)
  case Nil
  then show ?case using assms by (simp add: build_run_def)
next
  case (snoc ev es)
  then show ?case
    using build_ok_step [of "build_run s es" ev] by (simp add: build_run_snoc)
qed

lemma settled_completion_stays:
  assumes "build_ok s" "completion s \<noteq> Pending"
  shows "completion (build_run s es) = completion s"
proof (induction es rule: rev_induct)
  case Nil
  then show ?case by (simp add: build_run_def)
next
  case (snoc ev es)
  have "build_ok (build_run s es)"
    using assms(1) by (simp add: build_ok_run)
  then have "more (completion (build_run s es)) (completion (build_step (build_run s es) ev))"
    by (simp add: build_ok_step)
  then show ?case
    using snoc assms(2) by (simp add: build_run_snoc more_def)
qed

lemma build_run_append: "build_run s (es @ es') = build_run (build_run s es) es'"
  by (simp add: build_run_def)

lemma build_ok_build:
  assumes "build options config = Inr s0"
  shows "build_ok s0 \<and> length (configLoads s0) = 1"
proof (cases "js options")
  case None
  then show ?thesis using assms by (simp add: build_def)
next
  case (Some j)
  then show ?thesis
    using assms
    by (auto simp: build_def build_ok_def branch_ok_def all_ok_def postProcessing_def
        then_promise_def calls_due_def)
qed

lemma all_ok_succeeded:
  "all_ok [p, q] cur \<Longrightarrow> succeeded cur \<longleftrightarrow> succeeded p \<and> succeeded q"
  by (cases cur; cases p; cases q) (auto simp: all_ok_def)

lemma all_ok_failed:
  "all_ok [p, q] cur \<Longrightarrow> failed cur \<longleftrightarrow> failed p \<or> failed q"
  by (cases cur; cases p; cases q) (auto simp: all_ok_def)

lemma all_ok_reason:
  "all_ok [p, q] (RejectedWith e) \<Longrightarrow> p = RejectedWith e \<or> q = RejectedWith e"
  by (cases p; cases q) (auto simp: all_ok_def)


lemma postProcessing_failed:
  assumes "branch_ok cfg b"
  shows "failed (postProcessing b)
    \<longleftrightarrow> failed cfg \<or> failed (stream b) \<or> called_and failed (worker b)"
  using assms all_ok_failed [of cfg "stream b" "configAndStream b"]
  by (cases "configAndStream b"; cases "worker b")
    (auto simp: branch_ok_def postProcessing_def then_promise_def)

lemma result_succeeded [simp]: "succeeded (result s) = succeeded (completion s)"
  by (cases "completion s") (simp_all add: result_def)

lemma result_failed [simp]: "failed (result s) = failed (completion s)"
  by (cases "completion s") (simp_all add: result_def)

lemma result_reason: "result s = RejectedWith e \<longleftrightarrow> completion s = RejectedWith e"
  by (cases "completion s") (simp_all add: result_def)

subsection \<open>The promises of a build, read off the events\<close>

lemma settle_with_settled [simp]:
  "settle_with (settle_with p (Fulfilled v)) q = settle_with p (Fulfilled v)"
  "settle_with (settle_with p (RejectedWith e)) q = settle_with p (RejectedWith e)"
  by (cases p; simp add: settle_with_def)+

lemma settle_with_Pending [simp]: "settle_with Pending q = q"
  by (simp add: settle_with_def)

lemma react_branch_keeps:
  "stream (fst (react_branch cfg name b)) = stream b"
  "worker b \<noteq> None \<Longrightarrow> worker (fst (react_branch cfg name b)) = worker b"
  by (auto simp: react_branch_def Let_def split: settle.splits option.splits)

lemma react_fields:
  "loadSWConfig (react s) = loadSWConfig s"
  "unbundled (react s) = fst (react_branch (loadSWConfig s) Unbundled (unbundled s))"
  "bundled (react s) = fst (react_branch (loadSWConfig s) Bundled (bundled s))"
  by (simp_all add: react_def split: prod.splits)

lemma react_keeps [simp]:
  "loadSWConfig (react s) = loadSWConfig s"
  "stream (unbundled (react s)) = stream (unbundled s)"
  "stream (bundled (react s)) = stream (bundled s)"
  by (simp_all add: react_fields react_branch_keeps)


lemma config_settled [simp]:
  "loadSWConfig (settle_stream name q s) = loadSWConfig s"
  "loadSWConfig (settle_worker_of name q s) = loadSWConfig s"
  by (cases name; simp)+

lemma build_run_Cons: "build_run s (ev # es) = build_run (build_step s ev) es"
  by (simp add: build_run_def)

lemma loadSWConfig_run:
  "loadSWConfig (build_run s es) = settle_with (loadSWConfig s) (config_of es)"
proof (induction es arbitrary: s)
  case Nil
  then show ?case by (cases "loadSWConfig s") (simp_all add: build_run_def settle_with_def)
next
  case (Cons ev es)
  show ?case
    by (cases ev; cases "loadSWConfig s")
      (simp_all add: build_run_Cons Cons.IH settle_with_def split: branch.splits)
qed

lemma stream_settled [simp]:
  "stream (unbundled (settle_stream name q s))
     = (if name = Unbundled then settle_with (stream (unbundled s)) q else stream (unbundled s))"
  "stream (bundled (settle_stream name q s))
     = (if name = Bundled then settle_with (stream (bundled s)) q else stream (bundled s))"
  by (cases name; simp)+

lemma stream_worker_settled [simp]:
  "stream (unbundled (settle_worker_of name q s)) = stream (unbundled s)"
  "stream (bundled (settle_worker_of name q s)) = stream (bundled s)"
  by (cases name; simp add: settle_worker_def split: option.splits)+

lemma unbundled_stream_run:
  "stream (unbundled (build_run s es))
     = settle_with (stream (unbundled s)) (stream_of Unbundled es)"
proof (induction es arbitrary: s)
  case Nil
  then show ?case by (cases "stream (unbundled s)") (simp_all add: build_run_def settle_with_def)
next
  case (Cons ev es)
  show ?case
    by (cases ev; cases "stream (unbundled s)")
      (simp_all add: build_run_Cons Cons.IH settle_with_def)
qed

lemma bundled_stream_run:
  "stream (bundled (build_run s es))
     = settle_with (stream (bundled s)) (stream_of Bundled es)"
proof (induction es arbitrary: s)
  case Nil
  then show ?case by (cases "stream (bundled s)") (simp_all add: build_run_def settle_with_def)
next
  case (Cons ev es)
  show ?case
    by (cases ev; cases "stream (bundled s)")
      (simp_all add: build_run_Cons Cons.IH settle_with_def)
qed

lemma build_pending:
  assumes "build options config = Inr s0"
  shows "loadSWConfig s0 = Pending" "stream (unbundled s0) = Pending"
    "stream (bundled s0) = Pending"
  using assms by (cases "js options"; auto simp: build_def)+

lemma promises_of_events:
  assumes "build options config = Inr s0"
  shows "loadSWConfig (build_run s0 es) = config_of es"
    "stream (unbundled (build_run s0 es)) = stream_of Unbundled es"
    "stream (bundled (build_run s0 es)) = stream_of Bundled es"
  using build_pending [OF assms]
  by (simp_all add: loadSWConfig_run unbundled_stream_run bundled_stream_run)

lemma worker_called_iff:
  assumes "branch_ok cfg b"
  shows "worker b = None \<longleftrightarrow> \<not> (succeeded cfg \<and> succeeded (stream b))"
  using assms all_ok_succeeded [of cfg "stream b" "configAndStream b"]
  by (simp add: branch_ok_def)



subsection \<open>The claims about the build\<close>

lemma build_demo: "build (buildOptions demo_command) demo_config = Inr demo_build"
  by (simp add: demo_build_def build_def buildOptions_def)




text \<open>
  Claim C4, as the code has it. The aggregation is the \<open>Promise.all\<close> of the two
  post-processing promises; the configuration reaches it through them. After every
  sequence of settlements: as soon as one of the two is rejected the result is rejected,
  whatever the state of the other; a rejected result carries the reason of one of the
  two and keeps it through every later settlement, so the failure reported is the first
  in time; and the result is fulfilled exactly when both are.\<close>

theorem build_reports_first_failure:
  assumes "build options config = Inr s0"
  shows "(failed (postProcessing (unbundled (build_run s0 es)))
        \<or> failed (postProcessing (bundled (build_run s0 es)))
       \<longleftrightarrow> failed (result (build_run s0 es)))
    \<and> (result (build_run s0 es) = RejectedWith e \<longrightarrow>
         (postProcessing (unbundled (build_run s0 es)) = RejectedWith e
          \<or> postProcessing (bundled (build_run s0 es)) = RejectedWith e)
         \<and> result (build_run s0 (es @ later)) = RejectedWith e)
    \<and> (succeeded (result (build_run s0 es)) \<longleftrightarrow>
         succeeded (postProcessing (unbundled (build_run s0 es)))
         \<and> succeeded (postProcessing (bundled (build_run s0 es))))"
proof -
  let ?s = "build_run s0 es"
  have ok: "build_ok ?s"
    using build_ok_build [OF assms] by (simp add: build_ok_run)
  then have c: "all_ok [postProcessing (unbundled ?s), postProcessing (bundled ?s)] (completion ?s)"
    by (simp add: build_ok_def)
  have stays: "result (build_run s0 (es @ later)) = RejectedWith e"
    if "result ?s = RejectedWith e"
  proof -
    from that have r: "completion ?s = RejectedWith e"
      by (simp add: result_reason)
    then have "completion (build_run ?s later) = RejectedWith e"
      using settled_completion_stays [OF ok, of later] by simp
    then show ?thesis
      by (simp add: build_run_append result_reason)
  qed
  have reason: "postProcessing (unbundled ?s) = RejectedWith e
      \<or> postProcessing (bundled ?s) = RejectedWith e" if "result ?s = RejectedWith e"
    using that c all_ok_reason by (simp add: result_reason) blast
  show ?thesis
    using all_ok_succeeded [OF c] all_ok_failed [OF c] stays reason by simp
qed

theorem build_reports_first_failure_witness:
  "result (build_run demo_build [StreamError Bundled (Failure 1)]) = RejectedWith (Failure 1)
   \<and> postProcessing (bundled (build_run demo_build [StreamError Bundled (Failure 1)]))
       = RejectedWith (Failure 1)
   \<and> result (build_run demo_build
        ([StreamError Bundled (Failure 1)] @ [StreamError Unbundled (Failure 0)]))
       = RejectedWith (Failure 1)"
proof -
  have r: "result (build_run demo_build [StreamError Bundled (Failure 1)]) = RejectedWith (Failure 1)"
    and u: "postProcessing (unbundled (build_run demo_build [StreamError Bundled (Failure 1)])) = Pending"
    by code_simp+
  from build_reports_first_failure [OF build_demo,
      of "[StreamError Bundled (Failure 1)]" "Failure 1" "[StreamError Unbundled (Failure 0)]"] r u
  show ?thesis by simp
qed

text \<open>
  The stream of the bundled branch fails first: the result is rejected at once, while
  the first input, the unbundled post-processing, and the configuration are still
  pending. When the unbundled stream fails afterwards, the first input is rejected too,
  and the result keeps the reason of the second.\<close>

theorem build_does_not_wait_for_all:
  "result (build_run demo_build [StreamError Bundled (Failure 1)]) = RejectedWith (Failure 1)
   \<and> postProcessing (unbundled (build_run demo_build [StreamError Bundled (Failure 1)])) = Pending
   \<and> loadSWConfig (build_run demo_build [StreamError Bundled (Failure 1)]) = Pending
   \<and> postProcessing (unbundled (build_run demo_build
        [StreamError Bundled (Failure 1), StreamError Unbundled (Failure 0)]))
       = RejectedWith (Failure 0)
   \<and> result (build_run demo_build
        [StreamError Bundled (Failure 1), StreamError Unbundled (Failure 0)])
       = RejectedWith (Failure 1)"
  by code_simp

text \<open>
  Claim C7. \<open>build\<close> calls \<open>parsePreCacheConfig\<close> once and no event makes it call
  again. Once the configuration is loaded with a value and the stream of a branch has
  ended, \<open>addServiceWorker\<close> has been called for that branch with that value; with
  both streams ended the calls are those two, one for each branch. No call ever gets
  another value. When the configuration fails, \<open>addServiceWorker\<close> is never called
  and both post-processing promises are rejected.\<close>

theorem config_loaded_once_and_shared:
  assumes "build options config = Inr s0"
  shows "length (configLoads (build_run s0 es)) = 1
    \<and> loadSWConfig (build_run s0 es) = config_of es
    \<and> list_all (\<lambda>c. loadSWConfig (build_run s0 es) = Fulfilled (swConfig c))
         (workerCalls (build_run s0 es))
    \<and> length (workerCalls (build_run s0 es)) \<le> 2
    \<and> (failed (loadSWConfig (build_run s0 es)) \<longrightarrow>
         workerCalls (build_run s0 es) = []
         \<and> failed (postProcessing (unbundled (build_run s0 es)))
         \<and> failed (postProcessing (bundled (build_run s0 es))))
    \<and> (config_of es = Fulfilled c \<and> succeeded (stream_of Unbundled es) \<longrightarrow>
         call_for Unbundled c \<in> set (workerCalls (build_run s0 es)))
    \<and> (config_of es = Fulfilled c \<and> succeeded (stream_of Bundled es) \<longrightarrow>
         call_for Bundled c \<in> set (workerCalls (build_run s0 es)))
    \<and> (config_of es = Fulfilled c \<and> succeeded (stream_of Unbundled es)
         \<and> succeeded (stream_of Bundled es) \<longrightarrow>
         set (workerCalls (build_run s0 es)) = {call_for Unbundled c, call_for Bundled c}
         \<and> length (workerCalls (build_run s0 es)) = 2)"
proof -
  let ?s = "build_run s0 es"
  note ev = promises_of_events [OF assms, of es]
  have ok: "build_ok ?s" and loads: "length (configLoads ?s) = 1"
    using build_ok_build [OF assms] by (simp_all add: build_ok_run)
  then have u: "branch_ok (config_of es) (unbundled ?s)"
    and b: "branch_ok (config_of es) (bundled ?s)"
    and calls: "list_all (\<lambda>c. config_of es = Fulfilled (swConfig c)) (workerCalls ?s)"
    and due: "set (workerCalls ?s) = calls_due (config_of es) Unbundled (unbundled ?s)
        \<union> calls_due (config_of es) Bundled (bundled ?s)"
    and len: "length (workerCalls ?s) =
      (if worker (unbundled ?s) = None then 0 else 1) + (if worker (bundled ?s) = None then 0 else 1)"
    by (simp_all add: build_ok_def ev)
  have none: "workerCalls ?s = []" if "failed (config_of es)"
    using that calls by (cases "workerCalls ?s") auto
  have cu: "calls_due (config_of es) Unbundled (unbundled ?s) = {call_for Unbundled c}"
    if "config_of es = Fulfilled c" "succeeded (stream_of Unbundled es)"
    using that worker_called_iff [OF u] by (auto simp: calls_due_def ev)
  have cb: "calls_due (config_of es) Bundled (bundled ?s) = {call_for Bundled c}"
    if "config_of es = Fulfilled c" "succeeded (stream_of Bundled es)"
    using that worker_called_iff [OF b] by (auto simp: calls_due_def ev)
  have wu: "worker (unbundled ?s) \<noteq> None"
    if "config_of es = Fulfilled c" "succeeded (stream_of Unbundled es)"
    using that worker_called_iff [OF u] by (simp add: ev)
  have wb: "worker (bundled ?s) \<noteq> None"
    if "config_of es = Fulfilled c" "succeeded (stream_of Bundled es)"
    using that worker_called_iff [OF b] by (simp add: ev)
  show ?thesis
    using loads calls len none due cu cb wu wb
      postProcessing_failed [OF u] postProcessing_failed [OF b]
    by (auto simp: ev)
qed

theorem config_loaded_once_and_shared_witness:
  "configLoads (build_run demo_build [StreamEnd Unbundled, ConfigLoaded (Config 3), StreamEnd Bundled])
     = [(''/app'', ''sw-precache-config.js'')]
   \<and> loadSWConfig (build_run demo_build
        [StreamEnd Unbundled, ConfigLoaded (Config 3), StreamEnd Bundled]) = Fulfilled (Config 3)
   \<and> set (workerCalls (build_run demo_build
        [StreamEnd Unbundled, ConfigLoaded (Config 3), StreamEnd Bundled]))
     = {\<lparr>buildRoot = ''build/unbundled'', swConfig = Config 3, bundled_arg = None\<rparr>,
        \<lparr>buildRoot = ''build/bundled'', swConfig = Config 3, bundled_arg = Some True\<rparr>}
   \<and> length (workerCalls (build_run demo_build
        [StreamEnd Unbundled, ConfigLoaded (Config 3), StreamEnd Bundled])) = 2
   \<and> workerCalls (build_run demo_build
        [StreamEnd Unbundled, ConfigFailed (Failure 2), StreamEnd Bundled]) = []"
proof -
  have l: "configLoads (build_run demo_build [StreamEnd Unbundled, ConfigLoaded (Config 3), StreamEnd Bundled])
     = [(''/app'', ''sw-precache-config.js'')]"
    by code_simp
  show ?thesis
    using l
      config_loaded_once_and_shared [OF build_demo,
        of "[StreamEnd Unbundled, ConfigLoaded (Config 3), StreamEnd Bundled]" "Config 3"]
      config_loaded_once_and_shared [OF build_demo,
        of "[StreamEnd Unbundled, ConfigFailed (Failure 2), StreamEnd Bundled]"]
    by (simp add: call_for_def)
qed

text \<open>
  What \<open>build\<close> does with \<open>options.insertDependencyLinks\<close>: when it is truthy the
  prefetch stage stands in the unbundled phase, right before the write to
  \<open>build/unbundled\<close>; otherwise the phase is the write alone; the bundled phase never
  has it.\<close>

lemma build_inserts_prefetch:
  assumes "build options config = Inr s"
  shows "active (unbundledPhase s) =
      (if truthy (insertDependencyLinks options)
       then [PrefetchTransform, Dest ''build/unbundled''] else [Dest ''build/unbundled''])
    \<and> active (bundledPhase s) = [Bundler, Dest ''build/bundled'']"
  using assms by (cases "js options") (auto simp: build_def)

text \<open>
  Claim C8, at the input where the code departs from it. The command puts its flag
  under the name \<open>insertPrefetchLinks\<close>; \<open>build\<close> reads \<open>insertDependencyLinks\<close>,
  which the command never sets. So with the flag on, \<open>run\<close> starts a build whose
  unbundled phase is the write alone, without the prefetch stage.\<close>

theorem prefetch_flag_never_reaches_build:
  "opt_insert_prefetch_links demo_command = Some True
   \<and> insertPrefetchLinks (buildOptions demo_command) = Some True
   \<and> insertDependencyLinks (buildOptions demo_command) = None
   \<and> command_run demo_command demo_config = ViaBuild (Inr demo_build)
   \<and> active (unbundledPhase demo_build) = [Dest ''build/unbundled'']
   \<and> active (bundledPhase demo_build) = [Bundler, Dest ''build/bundled'']"
proof -
  have "insertDependencyLinks (buildOptions demo_command) = None"
    by (simp add: buildOptions_def)
  then show ?thesis
    using build_inserts_prefetch [OF build_demo] build_demo
    by (simp add: command_run_def truthy_def) (simp add: demo_command_def buildOptions_def)
qed

text \<open>
  Claim C10. When the options have no \<open>js\<close>, \<open>build\<close> fails with a \<open>TypeError\<close>
  and sets up nothing.\<close>

theorem build_requires_js:
  assumes "js options = None"
  shows "build options config = Inl TypeError"
  using assms by (simp add: build_def)

theorem build_requires_js_witness:
  "js ((buildOptions demo_command)\<lparr>js := None\<rparr>) = None
   \<and> build ((buildOptions demo_command)\<lparr>js := None\<rparr>) demo_config = Inl TypeError"
proof -
  have h: "js ((buildOptions demo_command)\<lparr>js := None\<rparr>) = None"
    by simp
  from build_requires_js [OF h, of demo_config] h show ?thesis
    by simp
qed

end
